theory Spec2Isabelle
  imports Main "HOL-Library.Word" "HOL-Library.Sublist"
begin

section \<open>JavaScript values\<close>

text \<open>
  A JavaScript string is a sequence of UTF-16 code units; \<open>charCodeAt\<close> and \<open>length\<close>
  work on code units, so a string is a list of 16-bit words. \<open>js\<close> turns a literal of
  the source into such a list.
\<close>

type_synonym jschar = "16 word"
type_synonym jsstring = "jschar list"

definition js :: "string \<Rightarrow> jsstring" where
  "js s = map (\<lambda>c. word_of_nat (of_char c)) s"

text \<open>\<open>String.prototype.includes\<close>: the argument occurs as a contiguous substring.\<close>

fun includes_js :: "jsstring \<Rightarrow> jsstring \<Rightarrow> bool" where
  "includes_js [] t = (t = [])"
| "includes_js (c # s) t = (prefix t (c # s) \<or> includes_js s t)"

text \<open>
  \<open>Number.prototype.toString\<close> on a non-negative integer below \<open>10\<^sup>2\<^sup>1\<close>: the decimal
  digits, most significant first, no sign and no exponent.
\<close>

definition digit :: "nat \<Rightarrow> jschar" where
  "digit d = word_of_nat (48 + d)"

function toString :: "nat \<Rightarrow> jsstring" where
  "toString n = (if n < 10 then [digit n] else toString (n div 10) @ [digit (n mod 10)])"
  by pat_completeness auto
termination
  by (relation "measure id") auto

declare toString.simps [simp del]

text \<open>
  The results of \<open>Math.min(...xs)\<close> and \<open>Math.max(...xs)\<close> on a list of integers:
  with no argument they are \<open>Infinity\<close> and \<open>-Infinity\<close>.
\<close>

datatype jsnumber = Finite int | PosInfinity | NegInfinity | NaN

fun Math_min :: "int list \<Rightarrow> jsnumber" where
  "Math_min [] = PosInfinity"
| "Math_min (x # xs) = (case Math_min xs of Finite m \<Rightarrow> Finite (min x m) | _ \<Rightarrow> Finite x)"

fun Math_max :: "int list \<Rightarrow> jsnumber" where
  "Math_max [] = NegInfinity"
| "Math_max (x # xs) = (case Math_max xs of Finite m \<Rightarrow> Finite (max x m) | _ \<Rightarrow> Finite x)"

text \<open>\<open>Array.prototype.findIndex\<close>, with \<open>None\<close> for the result \<open>-1\<close>.\<close>

fun findIndex :: "('a \<Rightarrow> bool) \<Rightarrow> 'a list \<Rightarrow> nat option" where
  "findIndex P [] = None"
| "findIndex P (x # xs) =
     (if P x then Some 0 else (case findIndex P xs of None \<Rightarrow> None | Some i \<Rightarrow> Some (Suc i)))"

text \<open>\<open>xs.splice(i, 1)\<close>: the array without its element at index \<open>i\<close>.\<close>

definition splice1 :: "nat \<Rightarrow> 'a list \<Rightarrow> 'a list" where
  "splice1 i xs = take i xs @ drop (Suc i) xs"

section \<open>Data model (services/CacheManager)\<close>

record CacheEntry =
  url :: jsstring
  data :: jsstring
  timestamp :: int
  expiresAt :: int
  contentType :: jsstring
  size_e :: nat

text \<open>The records of the index: \<open>{ url, size, timestamp }\<close>.\<close>

record IndexRecord =
  url_i :: jsstring
  size_i :: nat
  timestamp_i :: int

record CacheIndex =
  totalSize :: int
  entries :: "IndexRecord list"

record CacheStats =
  totalSize_s :: int
  entryCount :: nat
  oldestEntry :: jsnumber
  newestEntry :: jsnumber

section \<open>The key-value store (services/StorageService)\<close>

text \<open>
  AsyncStorage maps string keys to JSON texts. \<open>JSON.parse\<close> undoes \<open>JSON.stringify\<close> on
  the values this program writes (objects of strings and integers), so a slot is modelled
  by the value it decodes to: a cache entry, the cache index, or any other text.
  The calls to AsyncStorage are taken to succeed; their failure is the only way the
  \<open>catch\<close> blocks of the two services are entered.
\<close>

datatype stored = Entry CacheEntry | Index CacheIndex | Raw jsstring

type_synonym storage = "jsstring \<rightharpoonup> stored"

definition FIRST_TIME_USER_KEY :: jsstring where
  "FIRST_TIME_USER_KEY = js ''isFirstTimeUser''"

definition CACHE_PREFIX :: jsstring where
  "CACHE_PREFIX = js ''cache_''"

definition setFirstTimeUser :: "bool \<Rightarrow> storage \<Rightarrow> storage" where
  "setFirstTimeUser v s = s(FIRST_TIME_USER_KEY \<mapsto> Raw (if v then js ''true'' else js ''false''))"

definition setCacheData :: "jsstring \<Rightarrow> stored \<Rightarrow> storage \<Rightarrow> storage" where
  "setCacheData key d s = s(CACHE_PREFIX @ key \<mapsto> d)"

definition getCacheData :: "storage \<Rightarrow> jsstring \<Rightarrow> stored option" where
  "getCacheData s key = s (CACHE_PREFIX @ key)"

definition removeCacheData :: "jsstring \<Rightarrow> storage \<Rightarrow> storage" where
  "removeCacheData key s = s(CACHE_PREFIX @ key := None)"

text \<open>
  \<open>clearAllCacheData\<close> removes the keys of \<open>getAllKeys()\<close> that start with the prefix.
\<close>

definition clearAllCacheData :: "storage \<Rightarrow> storage" where
  "clearAllCacheData s = (\<lambda>key. if prefix CACHE_PREFIX key then None else s key)"

section \<open>The cache manager (services/CacheManager)\<close>

definition CACHE_INDEX_KEY :: jsstring where
  "CACHE_INDEX_KEY = js ''cache_index''"

definition MAX_CACHE_SIZE :: int where
  "MAX_CACHE_SIZE = 50 * 1024 * 1024"

definition DEFAULT_EXPIRATION :: int where
  "DEFAULT_EXPIRATION = 60 * 60 * 1000"

definition STATIC_RESOURCE_EXPIRATION :: int where
  "STATIC_RESOURCE_EXPIRATION = 24 * 60 * 60 * 1000"

text \<open>
  \<open>hashUrl\<close>: \<open>hash & hash\<close> converts to a 32-bit integer, so \<open>hash\<close> is a 32-bit word
  read as two's complement; \<open>((hash << 5) - hash) + char\<close> is exact in a double before
  the conversion, which makes the step the same sum modulo \<open>2\<^sup>3\<^sup>2\<close>.
\<close>

fun hashLoop :: "32 word \<Rightarrow> jsstring \<Rightarrow> 32 word" where
  "hashLoop hash [] = hash"
| "hashLoop hash (char # rest) = hashLoop ((push_bit 5 hash - hash) + ucast char) rest"

definition hashUrl :: "jsstring \<Rightarrow> jsstring" where
  "hashUrl u = toString (nat \<bar>sint (hashLoop 0 u)\<bar>)"

definition getCacheKey :: "jsstring \<Rightarrow> jsstring" where
  "getCacheKey u = js ''resource_'' @ hashUrl u"

definition getExpirationTime :: "jsstring \<Rightarrow> int" where
  "getExpirationTime ct =
     (if includes_js ct (js ''css'') \<or> includes_js ct (js ''javascript'') \<or> includes_js ct (js ''image/'')
      then STATIC_RESOURCE_EXPIRATION
      else DEFAULT_EXPIRATION)"

text \<open>
  \<open>getCacheIndex\<close> reads the index; \<open>getEntry\<close> is the read
  \<open>StorageService.getCacheData(this.getCacheKey(url))\<close> that opens \<open>getCachedResource\<close>
  and \<open>removeCachedResource\<close>. The source types their results as the index and as
  \<open>CacheEntry | null\<close>. The entry keys and the index key differ
  (lemma \<open>entry_key_not_index_key\<close>), so a slot never holds the other shape; the model
  reads such a slot as absent.
\<close>

definition getCacheIndex :: "storage \<Rightarrow> CacheIndex" where
  "getCacheIndex s =
     (case getCacheData s CACHE_INDEX_KEY of
        Some (Index index) \<Rightarrow> index
      | _ \<Rightarrow> \<lparr>totalSize = 0, entries = []\<rparr>)"

definition getEntry :: "storage \<Rightarrow> jsstring \<Rightarrow> CacheEntry option" where
  "getEntry s u =
     (case getCacheData s (getCacheKey u) of Some (Entry entry) \<Rightarrow> Some entry | _ \<Rightarrow> None)"

text \<open>\<open>updateCacheIndex\<close>; \<open>now\<close> is the value of its call of \<open>Date.now()\<close>.\<close>

definition updateCacheIndex :: "int \<Rightarrow> jsstring \<Rightarrow> nat \<Rightarrow> storage \<Rightarrow> storage" where
  "updateCacheIndex now u sz s =
     (let index = getCacheIndex s;
          index1 = (case findIndex (\<lambda>entry. url_i entry = u) (entries index) of
                      None \<Rightarrow> index
                    | Some existingIndex \<Rightarrow>
                        \<lparr>totalSize = totalSize index - int (size_i (entries index ! existingIndex)),
                         entries = splice1 existingIndex (entries index)\<rparr>);
          index2 = \<lparr>totalSize = totalSize index1 + int sz,
                    entries = entries index1 @ [\<lparr>url_i = u, size_i = sz, timestamp_i = now\<rparr>]\<rparr>
      in setCacheData CACHE_INDEX_KEY (Index index2) s)"

definition removeFromCacheIndex :: "jsstring \<Rightarrow> nat \<Rightarrow> storage \<Rightarrow> storage" where
  "removeFromCacheIndex u sz s =
     (let index = getCacheIndex s in
      case findIndex (\<lambda>entry. url_i entry = u) (entries index) of
        None \<Rightarrow> s
      | Some entryIndex \<Rightarrow>
          setCacheData CACHE_INDEX_KEY
            (Index \<lparr>totalSize = totalSize index - int sz,
                    entries = splice1 entryIndex (entries index)\<rparr>) s)"

text \<open>
  The \<open>while\<close> loop of \<open>enforceCacheSizeLimit\<close>, on the running total, the remaining
  (sorted) records and the store: \<open>shift()\<close> takes the head.
\<close>

fun evictLoop :: "int \<Rightarrow> IndexRecord list \<Rightarrow> storage \<Rightarrow> int \<times> IndexRecord list \<times> storage" where
  "evictLoop tot [] s = (tot, [], s)"
| "evictLoop tot (oldest # rest) s =
     (if tot > MAX_CACHE_SIZE
      then evictLoop (tot - int (size_i oldest)) rest
             (removeCacheData (getCacheKey (url_i oldest)) s)
      else (tot, oldest # rest, s))"

text \<open>
  \<open>Array.prototype.sort\<close> is stable (ECMAScript 2019), as is \<open>sort_key\<close>: records with
  equal timestamps keep their order.
\<close>

definition enforceCacheSizeLimit :: "storage \<Rightarrow> storage" where
  "enforceCacheSizeLimit s =
     (let index = getCacheIndex s in
      if totalSize index \<le> MAX_CACHE_SIZE then s
      else
        (case evictLoop (totalSize index) (sort_key timestamp_i (entries index)) s of
           (tot, remaining, s') \<Rightarrow>
             setCacheData CACHE_INDEX_KEY (Index \<lparr>totalSize = tot, entries = remaining\<rparr>) s'))"

text \<open>The entry \<open>cacheResource\<close> builds; \<open>now\<close> is the value of its call of \<open>Date.now()\<close>.\<close>

definition newEntry :: "int \<Rightarrow> jsstring \<Rightarrow> jsstring \<Rightarrow> jsstring \<Rightarrow> CacheEntry" where
  "newEntry now u d ct =
     \<lparr>url = u, data = d, timestamp = now, expiresAt = now + getExpirationTime ct,
      contentType = ct, size_e = length d\<rparr>"

text \<open>
  \<open>cacheResource\<close> reads the clock twice: \<open>now\<close> for the entry and, after the entry is
  written, \<open>now'\<close> inside \<open>updateCacheIndex\<close>. A caller that omits the content type
  passes \<open>text/html\<close>.
\<close>

definition cacheResource :: "int \<Rightarrow> int \<Rightarrow> jsstring \<Rightarrow> jsstring \<Rightarrow> jsstring \<Rightarrow> storage \<Rightarrow> storage" where
  "cacheResource now now' u d ct s =
     (let entry = newEntry now u d ct;
          s1 = setCacheData (getCacheKey u) (Entry entry) s;
          s2 = updateCacheIndex now' u (size_e entry) s1
      in enforceCacheSizeLimit s2)"

definition removeCachedResource :: "jsstring \<Rightarrow> storage \<Rightarrow> storage" where
  "removeCachedResource u s =
     (case getEntry s u of
        None \<Rightarrow> s
      | Some entry \<Rightarrow> removeFromCacheIndex u (size_e entry) (removeCacheData (getCacheKey u) s))"

text \<open>\<open>getCachedResource\<close> returns the data or \<open>null\<close>, and the store it leaves.\<close>

definition getCachedResource :: "int \<Rightarrow> jsstring \<Rightarrow> storage \<Rightarrow> jsstring option \<times> storage" where
  "getCachedResource now u s =
     (case getEntry s u of
        None \<Rightarrow> (None, s)
      | Some entry \<Rightarrow>
          if now > expiresAt entry then (None, removeCachedResource u s)
          else (Some (data entry), s))"

definition clearCache :: "storage \<Rightarrow> storage" where
  "clearCache s = removeCacheData CACHE_INDEX_KEY (clearAllCacheData s)"

definition getCacheSize :: "storage \<Rightarrow> int" where
  "getCacheSize s = totalSize (getCacheIndex s)"

definition getCacheStats :: "storage \<Rightarrow> CacheStats" where
  "getCacheStats s =
     (let index = getCacheIndex s in
      \<lparr>totalSize_s = totalSize index,
       entryCount = length (entries index),
       oldestEntry = Math_min (map timestamp_i (entries index)),
       newestEntry = Math_max (map timestamp_i (entries index))\<rparr>)"

definition isCached :: "int \<Rightarrow> jsstring \<Rightarrow> storage \<Rightarrow> bool \<times> storage" where
  "isCached now u s = (case getCachedResource now u s of (cachedData, s') \<Rightarrow> (cachedData \<noteq> None, s'))"

section \<open>States reachable from an empty cache\<close>

text \<open>
  \<open>reachable U t s\<close>: the store \<open>s\<close> arises from a store with no key under the cache
  prefix by calls of the cache manager on URLs of \<open>U\<close> (and writes of the first-time
  flag), with a clock that never runs backwards; \<open>t\<close> is the latest clock value read.
\<close>

inductive reachable :: "jsstring set \<Rightarrow> int \<Rightarrow> storage \<Rightarrow> bool" for U :: "jsstring set" where
  empty_cache: "(\<forall>key. prefix CACHE_PREFIX key \<longrightarrow> s key = None) \<Longrightarrow> reachable U t s"
| clock: "reachable U t s \<Longrightarrow> t \<le> t' \<Longrightarrow> reachable U t' s"
| cache: "reachable U t s \<Longrightarrow> u \<in> U \<Longrightarrow> t \<le> now \<Longrightarrow> now \<le> now' \<Longrightarrow>
          reachable U now' (cacheResource now now' u d ct s)"
| read: "reachable U t s \<Longrightarrow> u \<in> U \<Longrightarrow> t \<le> now \<Longrightarrow>
         reachable U now (snd (getCachedResource now u s))"
| remove: "reachable U t s \<Longrightarrow> u \<in> U \<Longrightarrow> reachable U t (removeCachedResource u s)"
| clear: "reachable U t s \<Longrightarrow> reachable U t (clearCache s)"
| flag: "reachable U t s \<Longrightarrow> reachable U t (setFirstTimeUser v s)"

text \<open>
  \<open>reached U s\<close>: the same, with no condition on the clock values the calls read.
\<close>

inductive reached :: "jsstring set \<Rightarrow> storage \<Rightarrow> bool" for U :: "jsstring set" where
  reached_empty: "(\<forall>key. prefix CACHE_PREFIX key \<longrightarrow> s key = None) \<Longrightarrow> reached U s"
| reached_cache: "reached U s \<Longrightarrow> u \<in> U \<Longrightarrow> reached U (cacheResource now now' u d ct s)"
| reached_read: "reached U s \<Longrightarrow> u \<in> U \<Longrightarrow> reached U (snd (getCachedResource now u s))"
| reached_remove: "reached U s \<Longrightarrow> u \<in> U \<Longrightarrow> reached U (removeCachedResource u s)"
| reached_clear: "reached U s \<Longrightarrow> reached U (clearCache s)"
| reached_flag: "reached U s \<Longrightarrow> reached U (setFirstTimeUser v s)"




text \<open>
  The index \<open>index\<close> agrees with the entries of the store: one record per URL, each with
  a stored entry of the same size and a timestamp no later than \<open>t\<close>, the total equal to
  the sum of the sizes, and no entry stored under the cache prefix without a record.
\<close>

definition consistentWith :: "jsstring set \<Rightarrow> int \<Rightarrow> CacheIndex \<Rightarrow> storage \<Rightarrow> bool" where
  "consistentWith U t index s \<longleftrightarrow>
     distinct (map url_i (entries index))
   \<and> (\<forall>r \<in> set (entries index).
        url_i r \<in> U \<and> timestamp_i r \<le> t
        \<and> (\<exists>entry. getEntry s (url_i r) = Some entry \<and> size_e entry = size_i r))
   \<and> totalSize index = (\<Sum>r\<leftarrow>entries index. int (size_i r))
   \<and> (\<forall>key entry. prefix CACHE_PREFIX key \<longrightarrow> s key = Some (Entry entry) \<longrightarrow>
        (\<exists>r \<in> set (entries index). key = CACHE_PREFIX @ getCacheKey (url_i r)))"

definition consistent :: "jsstring set \<Rightarrow> int \<Rightarrow> storage \<Rightarrow> bool" where
  "consistent U t s = consistentWith U t (getCacheIndex s) s"

section \<open>The offline logic of the portfolio screen (app/portfolio)\<close>

record NetworkState =
  isConnected :: bool
  isInternetReachable :: "bool option"
  netType :: jsstring

text \<open>\<open>NetworkService.isOnline\<close>, on the state \<open>getNetworkState\<close> returns.\<close>

definition NetworkService_isOnline :: "NetworkState \<Rightarrow> bool" where
  "NetworkService_isOnline state = (isConnected state \<and> isInternetReachable state \<noteq> Some False)"

definition PORTFOLIO_URL :: jsstring where
  "PORTFOLIO_URL = js ''https://umar.is-a.dev/''"

text \<open>
  The source of the web view: a URL, or the \<open>data:\<close> URI built from cached content.
  \<open>encodeURIComponent\<close> throws on a string with an unpaired surrogate.
\<close>

datatype WebViewSource = Uri jsstring | DataUri jsstring

fun isWellFormed :: "jsstring \<Rightarrow> bool" where
  "isWellFormed [] = True"
| "isWellFormed [c] = (\<not> (0xD800 \<le> c \<and> c \<le> 0xDFFF))"
| "isWellFormed (c # c' # cs) =
     (if 0xD800 \<le> c \<and> c \<le> 0xDBFF then 0xDC00 \<le> c' \<and> c' \<le> 0xDFFF \<and> isWellFormed cs
      else \<not> (0xDC00 \<le> c \<and> c \<le> 0xDFFF) \<and> isWellFormed (c' # cs))"

text \<open>
  The state of the screen the offline logic uses, with the store, and the URLs passed to
  \<open>getCachedResource\<close> so far (a trace, to count the reads).
\<close>

record Screen =
  isOnline :: bool
  showOfflineMessage :: bool
  webViewSource :: WebViewSource
  store :: storage
  cacheReads :: "jsstring list"

definition handleOfflineLoad :: "int \<Rightarrow> Screen \<Rightarrow> Screen" where
  "handleOfflineLoad now st =
     (case getCachedResource now PORTFOLIO_URL (store st) of
        (cachedContent, s') \<Rightarrow>
          (let st1 = st\<lparr>store := s', cacheReads := cacheReads st @ [PORTFOLIO_URL]\<rparr> in
           case cachedContent of
             None \<Rightarrow> st1\<lparr>showOfflineMessage := True\<rparr>
           | Some content \<Rightarrow>
               if content = [] then st1\<lparr>showOfflineMessage := True\<rparr>
               else if isWellFormed content
               then st1\<lparr>webViewSource := DataUri content, showOfflineMessage := True\<rparr>
               else st1\<lparr>showOfflineMessage := True\<rparr>))"

text \<open>
  \<open>checkInitialConnectivity\<close>, the body of the effect; \<open>fetched\<close> is the state its query
  of the network service returns.
\<close>

definition checkInitialConnectivity :: "NetworkState \<Rightarrow> int \<Rightarrow> Screen \<Rightarrow> Screen" where
  "checkInitialConnectivity fetched now st =
     (let online = NetworkService_isOnline fetched;
          st1 = st\<lparr>isOnline := online\<rparr>
      in if \<not> online then handleOfflineLoad now st1 else st1)"

text \<open>
  The listener the effect subscribes. Its \<open>wasOnline\<close> is the \<open>isOnline\<close> of the render
  the effect ran in, which the closure captured.
\<close>

definition networkListener :: "bool \<Rightarrow> NetworkState \<Rightarrow> Screen \<Rightarrow> Screen" where
  "networkListener wasOnline networkState st =
     (let online = isConnected networkState \<and> isInternetReachable networkState \<noteq> Some False;
          st1 = st\<lparr>isOnline := online\<rparr>
      in if \<not> online \<and> wasOnline then st1\<lparr>showOfflineMessage := True\<rparr>
         else if online \<and> \<not> wasOnline
         then st1\<lparr>showOfflineMessage := False, webViewSource := Uri PORTFOLIO_URL\<rparr>
         else st1)"

text \<open>
  The component around that state. Its effect has the dependencies
  \<open>[isOnline, handleOfflineLoad]\<close>; \<open>handleOfflineLoad\<close> comes from \<open>useCallback\<close> with no
  dependency and is the same function in every render, so the effect runs again exactly
  when \<open>isOnline\<close> differs from its value at the last run. A run of the effect calls
  \<open>checkInitialConnectivity\<close>, which waits for the network service, and subscribes a
  listener that captures the \<open>isOnline\<close> of that render; its cleanup unsubscribes the
  listener of the run before, and cancels no check. So the component carries the
  \<open>isOnline\<close> the subscribed listener captured, and the number of checks that wait for
  their answer.
\<close>

record Component =
  screen :: Screen
  listenerWasOnline :: bool
  checksInFlight :: nat

definition runEffect :: "Component \<Rightarrow> Component" where
  "runEffect c = c\<lparr>listenerWasOnline := isOnline (screen c), checksInFlight := Suc (checksInFlight c)\<rparr>"

text \<open>The render after a change of state, which runs the effect again when \<open>isOnline\<close> changed.\<close>

definition render :: "Component \<Rightarrow> Component" where
  "render c = (if isOnline (screen c) \<noteq> listenerWasOnline c then runEffect c else c)"

text \<open>
  The connectivity events of the component: the network monitor calls the subscribed
  listener with a state, or a waiting check receives the state fetched from the network
  service (and the clock value of the cache read it may make) and completes. A check
  that completes, with the cache read of its \<open>handleOfflineLoad\<close>, is one step, and
  the render follows it.
\<close>

datatype Event = NetworkCallback NetworkState | CheckResolves NetworkState int

fun step :: "Event \<Rightarrow> Component \<Rightarrow> Component" where
  "step (NetworkCallback networkState) c =
     render (c\<lparr>screen := networkListener (listenerWasOnline c) networkState (screen c)\<rparr>)"
| "step (CheckResolves fetched now) c =
     (if checksInFlight c = 0 then c
      else render (c\<lparr>screen := checkInitialConnectivity fetched now (screen c),
                     checksInFlight := checksInFlight c - 1\<rparr>))"

fun run :: "Event list \<Rightarrow> Component \<Rightarrow> Component" where
  "run [] c = c"
| "run (e # es) c = run es (step e c)"

text \<open>
  The component once mounted on the store \<open>s\<close>: the initial values of \<open>useState\<close>, and
  the first run of the effect.
\<close>

definition mounted :: "storage \<Rightarrow> Component" where
  "mounted s =
     runEffect
       \<lparr>screen = \<lparr>isOnline = True, showOfflineMessage = False, webViewSource = Uri PORTFOLIO_URL,
                  store = s, cacheReads = []\<rparr>,
        listenerWasOnline = True, checksInFlight = 0\<rparr>"

section \<open>Basic facts\<close>

subsection \<open>Keys\<close>

lemma entry_key_not_index_key: "getCacheKey u \<noteq> CACHE_INDEX_KEY"
  by (simp add: getCacheKey_def CACHE_INDEX_KEY_def js_def)

lemma entry_key_has_prefix: "prefix CACHE_PREFIX (CACHE_PREFIX @ key)"
  by simp

lemma first_time_key_no_prefix: "\<not> prefix CACHE_PREFIX FIRST_TIME_USER_KEY"
  by (simp add: CACHE_PREFIX_def FIRST_TIME_USER_KEY_def js_def)

subsection \<open>Store operations\<close>

lemma getCacheData_setCacheData:
  "getCacheData (setCacheData k v s) k' = (if k' = k then Some v else getCacheData s k')"
  by (simp add: getCacheData_def setCacheData_def)

lemma getCacheData_removeCacheData:
  "getCacheData (removeCacheData k s) k' = (if k' = k then None else getCacheData s k')"
  by (simp add: getCacheData_def removeCacheData_def)

lemma getCacheData_clearAllCacheData: "getCacheData (clearAllCacheData s) k = None"
  by (simp add: getCacheData_def clearAllCacheData_def)

lemma getCacheData_clearCache: "getCacheData (clearCache s) k = None"
  by (simp add: clearCache_def getCacheData_removeCacheData getCacheData_clearAllCacheData)

lemma getCacheData_setFirstTimeUser: "getCacheData (setFirstTimeUser v s) k = getCacheData s k"
proof -
  have "CACHE_PREFIX @ k \<noteq> FIRST_TIME_USER_KEY"
    using first_time_key_no_prefix by (metis prefixI)
  then show ?thesis
    by (simp add: getCacheData_def setFirstTimeUser_def)
qed

lemmas store_simps = getCacheData_setCacheData getCacheData_removeCacheData
  getCacheData_clearAllCacheData getCacheData_clearCache getCacheData_setFirstTimeUser
  entry_key_not_index_key entry_key_not_index_key [symmetric]

lemma getCacheIndex_set_index [simp]:
  "getCacheIndex (setCacheData CACHE_INDEX_KEY (Index i) s) = i"
  by (simp add: getCacheIndex_def store_simps)

lemma getCacheIndex_set_entry [simp]:
  "getCacheIndex (setCacheData (getCacheKey u) v s) = getCacheIndex s"
  by (simp add: getCacheIndex_def store_simps)

lemma getCacheIndex_remove_entry [simp]:
  "getCacheIndex (removeCacheData (getCacheKey u) s) = getCacheIndex s"
  by (simp add: getCacheIndex_def store_simps)

lemma getCacheIndex_clearCache [simp]:
  "getCacheIndex (clearCache s) = \<lparr>totalSize = 0, entries = []\<rparr>"
  by (simp add: getCacheIndex_def store_simps)

lemma getEntry_set_index [simp]:
  "getEntry (setCacheData CACHE_INDEX_KEY v s) u = getEntry s u"
  by (simp add: getEntry_def store_simps)

lemma getEntry_set_entry:
  "getEntry (setCacheData (getCacheKey u') (Entry e) s) u =
     (if getCacheKey u = getCacheKey u' then Some e else getEntry s u)"
  by (simp add: getEntry_def store_simps)

lemma getEntry_remove_entry:
  "getEntry (removeCacheData (getCacheKey u') s) u =
     (if getCacheKey u = getCacheKey u' then None else getEntry s u)"
  by (simp add: getEntry_def store_simps)

lemma getEntry_clearCache [simp]: "getEntry (clearCache s) u = None"
  by (simp add: getEntry_def store_simps)

lemma getEntry_None_if_absent: "getCacheData s (getCacheKey u) = None \<Longrightarrow> getEntry s u = None"
  by (simp add: getEntry_def)

subsection \<open>findIndex and splice\<close>

lemma findIndex_None_iff: "findIndex P xs = None \<longleftrightarrow> (\<forall>x\<in>set xs. \<not> P x)"
  by (induction xs) (auto split: option.splits)

lemma findIndex_Some:
  "findIndex P xs = Some i \<Longrightarrow> i < length xs \<and> P (xs ! i) \<and> (\<forall>j<i. \<not> P (xs ! j))"
proof (induction xs arbitrary: i)
  case Nil
  then show ?case by simp
next
  case (Cons x xs)
  show ?case
  proof (cases "P x")
    case True
    with Cons.prems show ?thesis by simp
  next
    case False
    with Cons.prems obtain k where k: "findIndex P xs = Some k" "i = Suc k"
      by (auto split: option.splits)
    from Cons.IH [OF k(1)] False k(2) show ?thesis
      by (auto simp: less_Suc_eq_0_disj)
  qed
qed

lemma length_splice1: "i < length xs \<Longrightarrow> length (splice1 i xs) = length xs - 1"
  by (simp add: splice1_def)

lemma sum_list_splice1:
  fixes g :: "'a \<Rightarrow> int"
  assumes "i < length xs"
  shows "sum_list (map g (splice1 i xs)) = sum_list (map g xs) - g (xs ! i)"
proof -
  have "xs = take i xs @ xs ! i # drop (Suc i) xs"
    using assms by (simp add: id_take_nth_drop)
  then have "sum_list (map g xs) = sum_list (map g (take i xs @ xs ! i # drop (Suc i) xs))"
    by simp
  then show ?thesis
    by (simp add: splice1_def)
qed

lemma splice1_distinct_filter:
  assumes "distinct (map f xs)" "i < length xs"
  shows "splice1 i xs = filter (\<lambda>x. f x \<noteq> f (xs ! i)) xs"
proof -
  have xs: "xs = take i xs @ xs ! i # drop (Suc i) xs"
    using assms(2) by (simp add: id_take_nth_drop)
  have d: "distinct (map f (take i xs @ xs ! i # drop (Suc i) xs))"
    using assms(1) xs by simp
  have "f (xs ! i) \<notin> f ` set (take i xs)" "f (xs ! i) \<notin> f ` set (drop (Suc i) xs)"
    using d by auto
  then have a: "\<forall>x\<in>set (take i xs). f x \<noteq> f (xs ! i)"
    and b: "\<forall>x\<in>set (drop (Suc i) xs). f x \<noteq> f (xs ! i)"
    by (metis image_eqI)+
  have "filter (\<lambda>x. f x \<noteq> f (xs ! i)) (take i xs @ xs ! i # drop (Suc i) xs)
          = take i xs @ drop (Suc i) xs"
    using a b by simp
  with xs show ?thesis
    by (simp add: splice1_def)
qed

lemma getCacheData_empty [simp]: "getCacheData Map.empty k = None"
  by (simp add: getCacheData_def)

subsection \<open>Keys outside the cache prefix\<close>

lemma setCacheData_frame: "\<not> prefix CACHE_PREFIX key \<Longrightarrow> setCacheData k v s key = s key"
  by (auto simp: setCacheData_def)

lemma removeCacheData_frame: "\<not> prefix CACHE_PREFIX key \<Longrightarrow> removeCacheData k s key = s key"
  by (auto simp: removeCacheData_def)

lemma evictLoop_frame:
  "\<not> prefix CACHE_PREFIX key \<Longrightarrow> snd (snd (evictLoop tot rs s)) key = s key"
  by (induction rs arbitrary: tot s) (simp_all add: removeCacheData_frame)

lemma updateCacheIndex_frame:
  "\<not> prefix CACHE_PREFIX key \<Longrightarrow> updateCacheIndex now u sz s key = s key"
  by (simp add: updateCacheIndex_def Let_def setCacheData_frame)

lemma removeFromCacheIndex_frame:
  "\<not> prefix CACHE_PREFIX key \<Longrightarrow> removeFromCacheIndex u sz s key = s key"
  by (simp add: removeFromCacheIndex_def Let_def setCacheData_frame split: option.splits)

lemma enforceCacheSizeLimit_frame:
  "\<not> prefix CACHE_PREFIX key \<Longrightarrow> enforceCacheSizeLimit s key = s key"
proof -
  assume key: "\<not> prefix CACHE_PREFIX key"
  obtain tot rs s' where ev:
    "evictLoop (totalSize (getCacheIndex s)) (sort_key timestamp_i (entries (getCacheIndex s))) s
       = (tot, rs, s')"
    by (cases "evictLoop (totalSize (getCacheIndex s))
        (sort_key timestamp_i (entries (getCacheIndex s))) s") auto
  from evictLoop_frame [OF key, of "totalSize (getCacheIndex s)"
      "sort_key timestamp_i (entries (getCacheIndex s))" s] ev
  have "s' key = s key" by simp
  with key ev show ?thesis
    by (simp add: enforceCacheSizeLimit_def Let_def setCacheData_frame)
qed

lemma cacheResource_frame:
  "\<not> prefix CACHE_PREFIX key \<Longrightarrow> cacheResource now now' u d ct s key = s key"
  by (simp add: cacheResource_def Let_def enforceCacheSizeLimit_frame updateCacheIndex_frame
      setCacheData_frame)

lemma removeCachedResource_frame:
  "\<not> prefix CACHE_PREFIX key \<Longrightarrow> removeCachedResource u s key = s key"
  by (simp add: removeCachedResource_def removeFromCacheIndex_frame removeCacheData_frame
      split: option.splits)

lemma getCachedResource_frame:
  "\<not> prefix CACHE_PREFIX key \<Longrightarrow> snd (getCachedResource now u s) key = s key"
  by (simp add: getCachedResource_def removeCachedResource_frame split: option.splits)

lemma clearCache_frame: "\<not> prefix CACHE_PREFIX key \<Longrightarrow> clearCache s key = s key"
  by (auto simp: clearCache_def removeCacheData_def clearAllCacheData_def)

subsection \<open>Index and entries after each step of a write\<close>

lemma getCacheIndex_updateCacheIndex:
  "getCacheIndex (updateCacheIndex now u sz s) =
     (case findIndex (\<lambda>entry. url_i entry = u) (entries (getCacheIndex s)) of
        None \<Rightarrow>
          \<lparr>totalSize = totalSize (getCacheIndex s) + int sz,
           entries = entries (getCacheIndex s) @ [\<lparr>url_i = u, size_i = sz, timestamp_i = now\<rparr>]\<rparr>
      | Some i \<Rightarrow>
          \<lparr>totalSize = totalSize (getCacheIndex s) - int (size_i (entries (getCacheIndex s) ! i)) + int sz,
           entries = splice1 i (entries (getCacheIndex s)) @ [\<lparr>url_i = u, size_i = sz, timestamp_i = now\<rparr>]\<rparr>)"
  by (simp add: updateCacheIndex_def Let_def split: option.splits)

lemma getEntry_updateCacheIndex [simp]: "getEntry (updateCacheIndex now u sz s) u' = getEntry s u'"
  by (simp add: updateCacheIndex_def Let_def)

lemma enforceCacheSizeLimit_within:
  "totalSize (getCacheIndex s) \<le> MAX_CACHE_SIZE \<Longrightarrow> enforceCacheSizeLimit s = s"
  by (simp add: enforceCacheSizeLimit_def)

lemma getCacheIndex_setFirstTimeUser [simp]:
  "getCacheIndex (setFirstTimeUser v s) = getCacheIndex s"
  by (simp add: getCacheIndex_def store_simps)

lemma getCacheIndex_empty [simp]: "getCacheIndex Map.empty = \<lparr>totalSize = 0, entries = []\<rparr>"
  by (simp add: getCacheIndex_def)

lemma getEntry_empty [simp]: "getEntry Map.empty u = None"
  by (simp add: getEntry_def)

text \<open>A write into a cache with an empty index, of data within the size limit.\<close>

lemma cacheResource_first:
  assumes "getCacheIndex s = \<lparr>totalSize = 0, entries = []\<rparr>" "int (length d) \<le> MAX_CACHE_SIZE"
  shows "cacheResource now now' u d ct s =
           setCacheData CACHE_INDEX_KEY
             (Index \<lparr>totalSize = int (length d),
                     entries = [\<lparr>url_i = u, size_i = length d, timestamp_i = now'\<rparr>]\<rparr>)
             (setCacheData (getCacheKey u) (Entry (newEntry now u d ct)) s)"
proof -
  let ?s1 = "setCacheData (getCacheKey u) (Entry (newEntry now u d ct)) s"
  have upd: "updateCacheIndex now' u (length d) ?s1 =
      setCacheData CACHE_INDEX_KEY
             (Index \<lparr>totalSize = int (length d),
                     entries = [\<lparr>url_i = u, size_i = length d, timestamp_i = now'\<rparr>]\<rparr>) ?s1"
    using assms(1) by (simp add: updateCacheIndex_def Let_def)
  show ?thesis
    using assms(2)
    by (simp add: cacheResource_def Let_def newEntry_def [of now u d ct, THEN arg_cong [of _ _ size_e]]
        upd [unfolded newEntry_def] enforceCacheSizeLimit_within newEntry_def)
qed

subsection \<open>Removing from the index\<close>

lemma getEntry_removeFromCacheIndex [simp]:
  "getEntry (removeFromCacheIndex u sz s) u' = getEntry s u'"
  by (simp add: removeFromCacheIndex_def Let_def split: option.splits)

lemma getCacheIndex_removeFromCacheIndex:
  "getCacheIndex (removeFromCacheIndex u sz s) =
     (case findIndex (\<lambda>entry. url_i entry = u) (entries (getCacheIndex s)) of
        None \<Rightarrow> getCacheIndex s
      | Some i \<Rightarrow> \<lparr>totalSize = totalSize (getCacheIndex s) - int sz,
                   entries = splice1 i (entries (getCacheIndex s))\<rparr>)"
  by (simp add: removeFromCacheIndex_def Let_def split: option.splits)

lemma splice1_first_match:
  assumes "distinct (map f xs)" "findIndex (\<lambda>x. f x = u) xs = Some i"
  shows "splice1 i xs = filter (\<lambda>x. f x \<noteq> u) xs"
  using splice1_distinct_filter [OF assms(1), of i] findIndex_Some [OF assms(2)]
  by simp

lemma filter_no_match:
  assumes "findIndex (\<lambda>x. f x = u) xs = None"
  shows "filter (\<lambda>x. f x \<noteq> u) xs = xs"
  using assms by (simp add: findIndex_None_iff)

lemma findIndex_None_notin: "findIndex (\<lambda>x. f x = u) xs = None \<longleftrightarrow> u \<notin> f ` set xs"
  by (auto simp: findIndex_None_iff)

lemma getEntry_Some_iff:
  "getEntry s u = Some e \<longleftrightarrow> getCacheData s (getCacheKey u) = Some (Entry e)"
  by (auto simp: getEntry_def split: option.splits stored.splits)

subsection \<open>What a write leaves under the key of its URL\<close>

lemma getEntry_evictLoop:
  "getEntry (snd (snd (evictLoop tot rs s))) u = None
   \<or> getEntry (snd (snd (evictLoop tot rs s))) u = getEntry s u"
proof (induction rs arbitrary: tot s)
  case Nil
  then show ?case by simp
next
  case (Cons r rs)
  show ?case
  proof (cases "tot > MAX_CACHE_SIZE")
    case True
    from Cons.IH [of "tot - int (size_i r)" "removeCacheData (getCacheKey (url_i r)) s"]
    show ?thesis
      using True by (auto simp: getEntry_remove_entry split: if_splits)
  next
    case False
    then show ?thesis by simp
  qed
qed

lemma getEntry_enforceCacheSizeLimit:
  "getEntry (enforceCacheSizeLimit s) u = None \<or> getEntry (enforceCacheSizeLimit s) u = getEntry s u"
proof (cases "totalSize (getCacheIndex s) \<le> MAX_CACHE_SIZE")
  case True
  then show ?thesis by (simp add: enforceCacheSizeLimit_within)
next
  case False
  obtain tot rs s' where ev:
    "evictLoop (totalSize (getCacheIndex s)) (sort_key timestamp_i (entries (getCacheIndex s))) s
       = (tot, rs, s')"
    by (cases "evictLoop (totalSize (getCacheIndex s))
        (sort_key timestamp_i (entries (getCacheIndex s))) s") auto
  from getEntry_evictLoop [of "totalSize (getCacheIndex s)"
      "sort_key timestamp_i (entries (getCacheIndex s))" s u] ev
  have "getEntry s' u = None \<or> getEntry s' u = getEntry s u" by simp
  with False ev show ?thesis
    by (simp add: enforceCacheSizeLimit_def Let_def)
qed

lemma getEntry_cacheResource:
  "getEntry (cacheResource now now' u d ct s) u = None
   \<or> getEntry (cacheResource now now' u d ct s) u = Some (newEntry now u d ct)"
  using getEntry_enforceCacheSizeLimit
    [of "updateCacheIndex now' u (size_e (newEntry now u d ct))
          (setCacheData (getCacheKey u) (Entry (newEntry now u d ct)) s)" u]
  by (simp add: cacheResource_def Let_def getEntry_set_entry)

lemma cacheResource_within:
  assumes "totalSize (getCacheIndex (updateCacheIndex now' u (length d)
             (setCacheData (getCacheKey u) (Entry (newEntry now u d ct)) s))) \<le> MAX_CACHE_SIZE"
  shows "cacheResource now now' u d ct s =
           updateCacheIndex now' u (length d)
             (setCacheData (getCacheKey u) (Entry (newEntry now u d ct)) s)"
proof -
  have sz: "size_e (newEntry now u d ct) = length d"
    by (simp add: newEntry_def)
  show ?thesis
    using assms by (simp add: cacheResource_def Let_def sz enforceCacheSizeLimit_within)
qed

subsection \<open>Two sample URLs\<close>

lemma sample_urls_differ: "js ''https://x/a'' \<noteq> js ''https://x/b''"
  by (simp add: js_def)

lemma sample_keys_differ: "getCacheKey (js ''https://x/a'') \<noteq> getCacheKey (js ''https://x/b'')"
  by (simp add: js_def hashUrl_def getCacheKey_def toString.simps digit_def)

lemma expiration_html: "getExpirationTime (js ''text/html'') = 3600000"
  by (simp add: getExpirationTime_def DEFAULT_EXPIRATION_def js_def)

lemma expiration_css: "getExpirationTime (js ''text/css'') = 86400000"
  by (simp add: getExpirationTime_def STATIC_RESOURCE_EXPIRATION_def js_def)

text \<open>
  The store after \<open>https://x/a\<close> is cached as \<open>text/html\<close> and \<open>https://x/b\<close> as
  \<open>text/css\<close>, ten code units each, into an empty store at time \<open>t\<close>.
\<close>

lemma two_writes:
  fixes t :: int
  defines "s2 \<equiv> cacheResource t t (js ''https://x/b'') (replicate 10 66) (js ''text/css'')
                  (cacheResource t t (js ''https://x/a'') (replicate 10 65) (js ''text/html'') Map.empty)"
  shows "getCacheIndex s2 =
           \<lparr>totalSize = 20,
            entries = [\<lparr>url_i = js ''https://x/a'', size_i = 10, timestamp_i = t\<rparr>,
                       \<lparr>url_i = js ''https://x/b'', size_i = 10, timestamp_i = t\<rparr>]\<rparr>"
    and "getEntry s2 (js ''https://x/a'')
           = Some (newEntry t (js ''https://x/a'') (replicate 10 65) (js ''text/html''))"
    and "getEntry s2 (js ''https://x/b'')
           = Some (newEntry t (js ''https://x/b'') (replicate 10 66) (js ''text/css''))"
proof -
  let ?a = "js ''https://x/a''" and ?b = "js ''https://x/b''"
  let ?ea = "newEntry t ?a (replicate 10 65) (js ''text/html'')"
  let ?eb = "newEntry t ?b (replicate 10 66) (js ''text/css'')"
  let ?s1 = "cacheResource t t ?a (replicate 10 65) (js ''text/html'') Map.empty"
  have s1: "?s1 = setCacheData CACHE_INDEX_KEY
             (Index \<lparr>totalSize = 10, entries = [\<lparr>url_i = ?a, size_i = 10, timestamp_i = t\<rparr>]\<rparr>)
             (setCacheData (getCacheKey ?a) (Entry ?ea) Map.empty)"
    by (subst cacheResource_first) (simp_all add: MAX_CACHE_SIZE_def)
  have idx1: "getCacheIndex ?s1 =
      \<lparr>totalSize = 10, entries = [\<lparr>url_i = ?a, size_i = 10, timestamp_i = t\<rparr>]\<rparr>"
    by (simp add: s1)
  have e1: "getEntry ?s1 ?a = Some ?ea"
    by (simp add: s1 getEntry_set_entry)
  let ?s1' = "setCacheData (getCacheKey ?b) (Entry ?eb) ?s1"
  have idx2: "getCacheIndex (updateCacheIndex t ?b 10 ?s1') =
      \<lparr>totalSize = 20,
       entries = [\<lparr>url_i = ?a, size_i = 10, timestamp_i = t\<rparr>,
                  \<lparr>url_i = ?b, size_i = 10, timestamp_i = t\<rparr>]\<rparr>"
    using sample_urls_differ by (simp add: getCacheIndex_updateCacheIndex idx1)
  have s2: "s2 = updateCacheIndex t ?b 10 ?s1'"
    unfolding s2_def by (subst cacheResource_within) (simp_all add: idx2 MAX_CACHE_SIZE_def)
  show "getCacheIndex s2 =
           \<lparr>totalSize = 20,
            entries = [\<lparr>url_i = ?a, size_i = 10, timestamp_i = t\<rparr>,
                       \<lparr>url_i = ?b, size_i = 10, timestamp_i = t\<rparr>]\<rparr>"
    by (simp only: s2 idx2)
  show "getEntry s2 ?a = Some ?ea"
    using sample_keys_differ by (simp add: s2 getEntry_set_entry e1)
  show "getEntry s2 ?b = Some ?eb"
    by (simp add: s2 getEntry_set_entry)
qed

lemma colliding_urls_differ: "js ''https://x/Aa'' \<noteq> js ''https://x/BB''"
  by (simp add: js_def)

lemma colliding_keys_equal: "getCacheKey (js ''https://x/Aa'') = getCacheKey (js ''https://x/BB'')"
  by (simp add: js_def getCacheKey_def hashUrl_def)

subsection \<open>Decimal digits\<close>

lemma unat_digit: "d < 10 \<Longrightarrow> unat (digit d) = 48 + d"
  unfolding digit_def by (subst unat_of_nat) simp

lemma digit_inj: "a < 10 \<Longrightarrow> b < 10 \<Longrightarrow> digit a = digit b \<Longrightarrow> a = b"
proof -
  assume a: "a < 10" and b: "b < 10" and eq: "digit a = digit b"
  from eq have "unat (digit a) = unat (digit b)"
    by (rule arg_cong)
  then have "48 + a = 48 + b"
    by (simp only: unat_digit [OF a] unat_digit [OF b])
  then show "a = b"
    by (rule add_left_imp_eq)
qed

lemma toString_not_Nil: "toString n \<noteq> []"
  by (subst toString.simps) simp

lemma last_toString: "last (toString n) = digit (n mod 10)"
  by (subst toString.simps) simp

lemma butlast_toString: "butlast (toString n) = (if n < 10 then [] else toString (n div 10))"
  by (subst toString.simps) simp

lemma toString_inj: "toString m = toString n \<Longrightarrow> m = n"
proof (induction m arbitrary: n rule: less_induct)
  case (less m)
  from less.prems have "last (toString m) = last (toString n)"
    by simp
  then have "digit (m mod 10) = digit (n mod 10)"
    by (simp add: last_toString)
  then have mod: "m mod 10 = n mod 10"
    by (intro digit_inj) simp_all
  from less.prems have bl: "butlast (toString m) = butlast (toString n)"
    by simp
  show ?case
  proof (cases "m < 10")
    case True
    with bl have "n < 10"
      using toString_not_Nil [of "n div 10"] by (auto simp: butlast_toString split: if_splits)
    with True mod show ?thesis by simp
  next
    case False
    with bl have n: "\<not> n < 10" and "toString (m div 10) = toString (n div 10)"
      using toString_not_Nil [of "m div 10"] by (auto simp: butlast_toString split: if_splits)
    with less.IH [of "m div 10" "n div 10"] False have "m div 10 = n div 10"
      by simp
    with mod show ?thesis
      by (metis div_mult_mod_eq)
  qed
qed

section \<open>Eviction\<close>

subsection \<open>The eviction loop\<close>

lemma sum_list_insort_key:
  fixes h :: "'a \<Rightarrow> int"
  shows "sum_list (map h (insort_key g x ys)) = h x + sum_list (map h ys)"
  by (induction ys) simp_all

lemma sum_list_sort_key:
  fixes h :: "'a \<Rightarrow> int"
  shows "sum_list (map h (sort_key g xs)) = sum_list (map h xs)"
  by (induction xs) (simp_all add: sum_list_insort_key)

text \<open>The keys the loop removes when it evicts the records \<open>rs\<close>.\<close>

lemma evictLoop_spec:
  "\<exists>k\<le>length rs.
     evictLoop tot rs s =
       (tot - (\<Sum>r\<leftarrow>take k rs. int (size_i r)), drop k rs,
        (\<lambda>key. if key \<in> (\<lambda>r. CACHE_PREFIX @ getCacheKey (url_i r)) ` set (take k rs) then None
               else s key))
   \<and> (\<forall>j<k. tot - (\<Sum>r\<leftarrow>take j rs. int (size_i r)) > MAX_CACHE_SIZE)
   \<and> (tot - (\<Sum>r\<leftarrow>take k rs. int (size_i r)) \<le> MAX_CACHE_SIZE \<or> k = length rs)"
proof (induction rs arbitrary: tot s)
  case Nil
  then show ?case by simp
next
  case (Cons r rs)
  show ?case
  proof (cases "tot > MAX_CACHE_SIZE")
    case False
    then show ?thesis
      by (intro exI [of _ 0]) simp
  next
    case True
    let ?s = "removeCacheData (getCacheKey (url_i r)) s"
    let ?tot = "tot - int (size_i r)"
    from Cons.IH [of ?tot ?s] obtain k where k: "k \<le> length rs"
      and ev: "evictLoop ?tot rs ?s =
         (?tot - (\<Sum>r\<leftarrow>take k rs. int (size_i r)), drop k rs,
          (\<lambda>key. if key \<in> (\<lambda>r. CACHE_PREFIX @ getCacheKey (url_i r)) ` set (take k rs) then None
                 else ?s key))"
      and before: "\<forall>j<k. ?tot - (\<Sum>r\<leftarrow>take j rs. int (size_i r)) > MAX_CACHE_SIZE"
      and stop: "?tot - (\<Sum>r\<leftarrow>take k rs. int (size_i r)) \<le> MAX_CACHE_SIZE \<or> k = length rs"
      by blast
    have store: "(\<lambda>key. if key \<in> (\<lambda>r. CACHE_PREFIX @ getCacheKey (url_i r)) ` set (take k rs) then None
                 else ?s key)
        = (\<lambda>key. if key \<in> (\<lambda>r. CACHE_PREFIX @ getCacheKey (url_i r)) ` set (take (Suc k) (r # rs))
                 then None else s key)"
      by (auto simp: removeCacheData_def fun_eq_iff)
    have before': "tot - (\<Sum>r\<leftarrow>take j (r # rs). int (size_i r)) > MAX_CACHE_SIZE" if "j < Suc k" for j
    proof (cases j)
      case 0
      with True show ?thesis by simp
    next
      case (Suc i)
      with that before have "?tot - (\<Sum>r\<leftarrow>take i rs. int (size_i r)) > MAX_CACHE_SIZE"
        by simp
      with Suc show ?thesis by simp
    qed
    show ?thesis
    proof (intro exI [of _ "Suc k"] conjI allI impI)
      show "Suc k \<le> length (r # rs)"
        using k by simp
      show "evictLoop tot (r # rs) s =
         (tot - (\<Sum>r\<leftarrow>take (Suc k) (r # rs). int (size_i r)), drop (Suc k) (r # rs),
          (\<lambda>key. if key \<in> (\<lambda>r. CACHE_PREFIX @ getCacheKey (url_i r)) ` set (take (Suc k) (r # rs))
                 then None else s key))"
        using True ev store by simp
      show "tot - (\<Sum>r\<leftarrow>take j (r # rs). int (size_i r)) > MAX_CACHE_SIZE" if "j < Suc k" for j
        using before' that .
      show "tot - (\<Sum>r\<leftarrow>take (Suc k) (r # rs). int (size_i r)) \<le> MAX_CACHE_SIZE
          \<or> Suc k = length (r # rs)"
        using stop by (auto simp: algebra_simps)
    qed
  qed
qed

lemma sorted_take_drop:
  assumes "sorted (map f xs)" "a \<in> set (take k xs)" "b \<in> set (drop k xs)"
  shows "f a \<le> f b"
proof -
  have "xs = take k xs @ drop k xs" by simp
  then have "sorted (map f (take k xs) @ map f (drop k xs))"
    using assms(1) by (metis map_append)
  then show ?thesis
    using assms(2,3) by (auto simp: sorted_append)
qed


lemma enforceCacheSizeLimit_spec:
  assumes "totalSize (getCacheIndex s) > MAX_CACHE_SIZE"
  shows "\<exists>k\<le>length (entries (getCacheIndex s)).
     enforceCacheSizeLimit s =
       setCacheData CACHE_INDEX_KEY
         (Index \<lparr>totalSize = totalSize (getCacheIndex s)
                    - (\<Sum>r\<leftarrow>take k (sort_key timestamp_i (entries (getCacheIndex s))). int (size_i r)),
                 entries = drop k (sort_key timestamp_i (entries (getCacheIndex s)))\<rparr>)
         (\<lambda>key. if key \<in> (\<lambda>r. CACHE_PREFIX @ getCacheKey (url_i r))
                          ` set (take k (sort_key timestamp_i (entries (getCacheIndex s))))
                then None else s key)
   \<and> (\<forall>j<k. totalSize (getCacheIndex s)
             - (\<Sum>r\<leftarrow>take j (sort_key timestamp_i (entries (getCacheIndex s))). int (size_i r))
             > MAX_CACHE_SIZE)
   \<and> (totalSize (getCacheIndex s)
         - (\<Sum>r\<leftarrow>take k (sort_key timestamp_i (entries (getCacheIndex s))). int (size_i r))
         \<le> MAX_CACHE_SIZE
       \<or> k = length (entries (getCacheIndex s)))"
proof -
  let ?sorted = "sort_key timestamp_i (entries (getCacheIndex s))"
  from evictLoop_spec [of ?sorted "totalSize (getCacheIndex s)" s]
  obtain k where k: "k \<le> length ?sorted"
    and ev: "evictLoop (totalSize (getCacheIndex s)) ?sorted s =
       (totalSize (getCacheIndex s) - (\<Sum>r\<leftarrow>take k ?sorted. int (size_i r)), drop k ?sorted,
        (\<lambda>key. if key \<in> (\<lambda>r. CACHE_PREFIX @ getCacheKey (url_i r)) ` set (take k ?sorted) then None
               else s key))"
    and before: "\<forall>j<k. totalSize (getCacheIndex s) - (\<Sum>r\<leftarrow>take j ?sorted. int (size_i r))
        > MAX_CACHE_SIZE"
    and stop: "totalSize (getCacheIndex s) - (\<Sum>r\<leftarrow>take k ?sorted. int (size_i r)) \<le> MAX_CACHE_SIZE
        \<or> k = length ?sorted"
    by blast
  have "enforceCacheSizeLimit s =
       setCacheData CACHE_INDEX_KEY
         (Index \<lparr>totalSize = totalSize (getCacheIndex s) - (\<Sum>r\<leftarrow>take k ?sorted. int (size_i r)),
                 entries = drop k ?sorted\<rparr>)
         (\<lambda>key. if key \<in> (\<lambda>r. CACHE_PREFIX @ getCacheKey (url_i r)) ` set (take k ?sorted)
                then None else s key)"
    using assms by (simp add: enforceCacheSizeLimit_def Let_def ev)
  with k before stop show ?thesis
    by (intro exI [of _ k]) simp
qed

subsection \<open>The total stays within the limit\<close>

lemma sum_sizes_nonneg: "0 \<le> (\<Sum>r\<leftarrow>rs. int (size_i r))"
  by (rule sum_list_nonneg) auto

lemma drift_updateCacheIndex:
  "totalSize (getCacheIndex (updateCacheIndex now u sz s))
     - (\<Sum>r\<leftarrow>entries (getCacheIndex (updateCacheIndex now u sz s)). int (size_i r))
   = totalSize (getCacheIndex s) - (\<Sum>r\<leftarrow>entries (getCacheIndex s). int (size_i r))"
proof (cases "findIndex (\<lambda>entry. url_i entry = u) (entries (getCacheIndex s))")
  case None
  then show ?thesis
    by (simp add: getCacheIndex_updateCacheIndex)
next
  case (Some i)
  then have "i < length (entries (getCacheIndex s))"
    using findIndex_Some by blast
  from sum_list_splice1 [OF this, of "\<lambda>r. int (size_i r)"] Some show ?thesis
    by (simp add: getCacheIndex_updateCacheIndex)
qed

lemma enforceCacheSizeLimit_bound:
  "totalSize (getCacheIndex (enforceCacheSizeLimit s)) \<le> MAX_CACHE_SIZE
   \<or> totalSize (getCacheIndex (enforceCacheSizeLimit s))
       = totalSize (getCacheIndex s) - (\<Sum>r\<leftarrow>entries (getCacheIndex s). int (size_i r))"
proof (cases "totalSize (getCacheIndex s) \<le> MAX_CACHE_SIZE")
  case True
  then show ?thesis by (simp add: enforceCacheSizeLimit_within)
next
  case False
  then have "totalSize (getCacheIndex s) > MAX_CACHE_SIZE" by simp
  from enforceCacheSizeLimit_spec [OF this] obtain k where
    enf: "getCacheIndex (enforceCacheSizeLimit s) =
       \<lparr>totalSize = totalSize (getCacheIndex s)
                    - (\<Sum>r\<leftarrow>take k (sort_key timestamp_i (entries (getCacheIndex s))). int (size_i r)),
        entries = drop k (sort_key timestamp_i (entries (getCacheIndex s)))\<rparr>"
    and stop: "totalSize (getCacheIndex s)
         - (\<Sum>r\<leftarrow>take k (sort_key timestamp_i (entries (getCacheIndex s))). int (size_i r))
         \<le> MAX_CACHE_SIZE
       \<or> k = length (entries (getCacheIndex s))"
    by force
  from stop show ?thesis
  proof
    assume "totalSize (getCacheIndex s)
         - (\<Sum>r\<leftarrow>take k (sort_key timestamp_i (entries (getCacheIndex s))). int (size_i r))
         \<le> MAX_CACHE_SIZE"
    then show ?thesis by (simp add: enf)
  next
    assume "k = length (entries (getCacheIndex s))"
    then show ?thesis by (simp add: enf sum_list_sort_key)
  qed
qed

lemma cacheResource_bound:
  assumes "totalSize (getCacheIndex s) \<le> MAX_CACHE_SIZE"
  shows "totalSize (getCacheIndex (cacheResource now now' u d ct s)) \<le> MAX_CACHE_SIZE"
proof -
  let ?s1 = "setCacheData (getCacheKey u) (Entry (newEntry now u d ct)) s"
  let ?s2 = "updateCacheIndex now' u (size_e (newEntry now u d ct)) ?s1"
  have cr: "cacheResource now now' u d ct s = enforceCacheSizeLimit ?s2"
    by (simp add: cacheResource_def Let_def)
  have "totalSize (getCacheIndex ?s2) - (\<Sum>r\<leftarrow>entries (getCacheIndex ?s2). int (size_i r))
      = totalSize (getCacheIndex s) - (\<Sum>r\<leftarrow>entries (getCacheIndex s). int (size_i r))"
    using drift_updateCacheIndex [of now' u "size_e (newEntry now u d ct)" ?s1] by simp
  also have "\<dots> \<le> totalSize (getCacheIndex s)"
    using sum_sizes_nonneg [of "entries (getCacheIndex s)"] by simp
  finally have "totalSize (getCacheIndex ?s2) - (\<Sum>r\<leftarrow>entries (getCacheIndex ?s2). int (size_i r))
      \<le> MAX_CACHE_SIZE"
    using assms by simp
  with enforceCacheSizeLimit_bound [of ?s2] show ?thesis
    by (auto simp: cr)
qed

lemma removeCachedResource_total:
  "totalSize (getCacheIndex (removeCachedResource u s)) \<le> totalSize (getCacheIndex s)"
  by (simp add: removeCachedResource_def getCacheIndex_removeFromCacheIndex
      split: option.splits)

lemma getCachedResource_total:
  "totalSize (getCacheIndex (snd (getCachedResource now u s))) \<le> totalSize (getCacheIndex s)"
  using removeCachedResource_total [of u s]
  by (simp add: getCachedResource_def split: option.splits)

lemma getCacheIndex_no_cache_keys:
  assumes "\<forall>key. prefix CACHE_PREFIX key \<longrightarrow> s key = None"
  shows "getCacheIndex s = \<lparr>totalSize = 0, entries = []\<rparr>"
  using assms by (simp add: getCacheIndex_def getCacheData_def)

lemma reachable_total_bound:
  "reachable U t s \<Longrightarrow> totalSize (getCacheIndex s) \<le> MAX_CACHE_SIZE"
proof (induction rule: reachable.induct)
  case (empty_cache s t)
  then show ?case
    by (simp add: getCacheIndex_no_cache_keys MAX_CACHE_SIZE_def)
next
  case (clock t s t')
  then show ?case by simp
next
  case (cache t s u now now' d ct)
  then show ?case by (simp add: cacheResource_bound)
next
  case (read t s u now)
  with getCachedResource_total [of now u s] show ?case by simp
next
  case (remove t s u)
  with removeCachedResource_total [of u s] show ?case by simp
next
  case (clear t s)
  then show ?case by (simp add: MAX_CACHE_SIZE_def)
next
  case (flag t s v)
  then show ?case by simp
qed

section \<open>The index agrees with the store\<close>

lemma consistentWith_later:
  "consistentWith U t index s \<Longrightarrow> t \<le> t' \<Longrightarrow> consistentWith U t' index s"
  unfolding consistentWith_def by (meson order_trans)

lemma consistentWith_set_index:
  assumes "consistentWith U t index s"
  shows "consistentWith U t index (setCacheData CACHE_INDEX_KEY (Index i) s)"
proof -
  have "s key = Some (Entry entry)"
    if "setCacheData CACHE_INDEX_KEY (Index i) s key = Some (Entry entry)" for key entry
    using that by (auto simp: setCacheData_def split: if_splits)
  with assms show ?thesis
    unfolding consistentWith_def by (simp add: getEntry_set_index)
qed

lemma consistentWith_sort_key:
  "consistentWith U t \<lparr>totalSize = tot, entries = sort_key timestamp_i rs\<rparr> s
     = consistentWith U t \<lparr>totalSize = tot, entries = rs\<rparr> s"
  unfolding consistentWith_def
  by (simp add: distinct_map sum_list_sort_key)

lemma sum_list_filter_distinct:
  fixes h :: "'a \<Rightarrow> int"
  assumes "distinct (map f rs)" "r \<in> set rs"
  shows "sum_list (map h (filter (\<lambda>x. f x \<noteq> f r) rs)) = sum_list (map h rs) - h r"
  using assms
proof (induction rs)
  case Nil
  then show ?case by simp
next
  case (Cons x rs)
  show ?case
  proof (cases "x = r")
    case True
    with Cons.prems have "\<forall>y\<in>set rs. f y \<noteq> f r"
      by (metis distinct.simps(2) image_eqI list.simps(9) set_map)
    then have "filter (\<lambda>x. f x \<noteq> f r) rs = rs"
      by simp
    with True show ?thesis by simp
  next
    case False
    with Cons.prems have r: "r \<in> set rs" by simp
    with Cons.prems have "f x \<noteq> f r"
      by (metis distinct.simps(2) image_eqI list.simps(9) set_map)
    with Cons.IH r Cons.prems show ?thesis by simp
  qed
qed

lemma slot_Entry_iff:
  "s (CACHE_PREFIX @ getCacheKey u) = Some (Entry e) \<longleftrightarrow> getEntry s u = Some e"
  by (simp add: getEntry_Some_iff getCacheData_def)

text \<open>Removing the entry and the record of one URL keeps the agreement.\<close>

lemma consistentWith_drop_record:
  assumes c: "consistentWith U t \<lparr>totalSize = tot, entries = rs\<rparr> s"
    and inj: "inj_on getCacheKey U"
    and r: "r \<in> set rs"
  shows "consistentWith U t
           \<lparr>totalSize = tot - int (size_i r), entries = filter (\<lambda>x. url_i x \<noteq> url_i r) rs\<rparr>
           (removeCacheData (getCacheKey (url_i r)) s)"
proof -
  let ?s = "removeCacheData (getCacheKey (url_i r)) s"
  let ?rs = "filter (\<lambda>x. url_i x \<noteq> url_i r) rs"
  from c have d: "distinct (map url_i rs)"
    and recs: "\<forall>x\<in>set rs. url_i x \<in> U \<and> timestamp_i x \<le> t
        \<and> (\<exists>entry. getEntry s (url_i x) = Some entry \<and> size_e entry = size_i x)"
    and tot: "tot = (\<Sum>x\<leftarrow>rs. int (size_i x))"
    and indexed: "\<forall>key entry. prefix CACHE_PREFIX key \<longrightarrow> s key = Some (Entry entry) \<longrightarrow>
        (\<exists>x\<in>set rs. key = CACHE_PREFIX @ getCacheKey (url_i x))"
    unfolding consistentWith_def by simp_all
  have d': "distinct (map url_i ?rs)"
    using d by (simp add: distinct_map_filter)
  have keys: "getCacheKey (url_i x) \<noteq> getCacheKey (url_i r)" if "x \<in> set ?rs" for x
  proof -
    from that have "url_i x \<noteq> url_i r" "url_i x \<in> U" using recs by auto
    moreover have "url_i r \<in> U" using recs r by auto
    ultimately show ?thesis using inj by (auto dest: inj_onD)
  qed
  have recs': "url_i x \<in> U \<and> timestamp_i x \<le> t
        \<and> (\<exists>entry. getEntry ?s (url_i x) = Some entry \<and> size_e entry = size_i x)"
    if "x \<in> set ?rs" for x
    using that recs keys [OF that] by (simp add: getEntry_remove_entry)
  have tot': "tot - int (size_i r) = (\<Sum>x\<leftarrow>?rs. int (size_i x))"
    using sum_list_filter_distinct [OF d r, of "\<lambda>x. int (size_i x)"] tot by simp
  have indexed': "\<exists>x\<in>set ?rs. key = CACHE_PREFIX @ getCacheKey (url_i x)"
    if "prefix CACHE_PREFIX key" "?s key = Some (Entry entry)" for key entry
  proof -
    from that(2) have ne: "key \<noteq> CACHE_PREFIX @ getCacheKey (url_i r)"
      and "s key = Some (Entry entry)"
      by (auto simp: removeCacheData_def split: if_splits)
    with indexed that(1) obtain x where x: "x \<in> set rs" "key = CACHE_PREFIX @ getCacheKey (url_i x)"
      by blast
    with ne have "url_i x \<noteq> url_i r" by auto
    with x show ?thesis by auto
  qed
  show ?thesis
    unfolding consistentWith_def using d' recs' tot' indexed' by simp
qed

lemma consistentWith_evictLoop:
  assumes "consistentWith U t \<lparr>totalSize = tot, entries = rs\<rparr> s" "inj_on getCacheKey U"
  shows "consistentWith U t
           \<lparr>totalSize = fst (evictLoop tot rs s), entries = fst (snd (evictLoop tot rs s))\<rparr>
           (snd (snd (evictLoop tot rs s)))"
  using assms
proof (induction rs arbitrary: tot s)
  case Nil
  then show ?case by simp
next
  case (Cons r rs)
  show ?case
  proof (cases "tot > MAX_CACHE_SIZE")
    case False
    with Cons.prems show ?thesis by simp
  next
    case True
    from Cons.prems(1) have "distinct (map url_i (r # rs))"
      unfolding consistentWith_def by simp
    then have "\<forall>x\<in>set rs. url_i x \<noteq> url_i r"
      by (metis distinct.simps(2) image_eqI list.simps(9) set_map)
    then have f: "filter (\<lambda>x. url_i x \<noteq> url_i r) (r # rs) = rs"
      by simp
    from consistentWith_drop_record [OF Cons.prems(1,2), of r] f
    have "consistentWith U t \<lparr>totalSize = tot - int (size_i r), entries = rs\<rparr>
        (removeCacheData (getCacheKey (url_i r)) s)"
      by simp
    from Cons.IH [OF this Cons.prems(2)] True show ?thesis
      by simp
  qed
qed

lemma consistent_enforceCacheSizeLimit:
  assumes "consistent U t s" "inj_on getCacheKey U"
  shows "consistent U t (enforceCacheSizeLimit s)"
proof (cases "totalSize (getCacheIndex s) \<le> MAX_CACHE_SIZE")
  case True
  with assms show ?thesis by (simp add: enforceCacheSizeLimit_within)
next
  case False
  let ?ev = "evictLoop (totalSize (getCacheIndex s)) (sort_key timestamp_i (entries (getCacheIndex s))) s"
  from assms(1) have "consistentWith U t
      \<lparr>totalSize = totalSize (getCacheIndex s), entries = entries (getCacheIndex s)\<rparr> s"
    by (simp add: consistent_def consistentWith_def)
  then have "consistentWith U t
      \<lparr>totalSize = totalSize (getCacheIndex s),
       entries = sort_key timestamp_i (entries (getCacheIndex s))\<rparr> s"
    by (simp add: consistentWith_sort_key)
  from consistentWith_evictLoop [OF this assms(2)]
  have "consistentWith U t \<lparr>totalSize = fst ?ev, entries = fst (snd ?ev)\<rparr> (snd (snd ?ev))" .
  then have "consistentWith U t \<lparr>totalSize = fst ?ev, entries = fst (snd ?ev)\<rparr>
      (setCacheData CACHE_INDEX_KEY (Index \<lparr>totalSize = fst ?ev, entries = fst (snd ?ev)\<rparr>)
         (snd (snd ?ev)))"
    by (rule consistentWith_set_index)
  moreover have "enforceCacheSizeLimit s =
      setCacheData CACHE_INDEX_KEY (Index \<lparr>totalSize = fst ?ev, entries = fst (snd ?ev)\<rparr>)
         (snd (snd ?ev))"
    using False by (simp add: enforceCacheSizeLimit_def Let_def split: prod.splits)
  ultimately show ?thesis
    by (simp add: consistent_def)
qed


text \<open>The index after \<open>updateCacheIndex\<close>, when it holds at most one record per URL.\<close>

lemma entries_updateCacheIndex:
  assumes "distinct (map url_i (entries (getCacheIndex s)))"
  shows "entries (getCacheIndex (updateCacheIndex now u sz s)) =
           filter (\<lambda>r. url_i r \<noteq> u) (entries (getCacheIndex s))
             @ [\<lparr>url_i = u, size_i = sz, timestamp_i = now\<rparr>]"
proof (cases "findIndex (\<lambda>entry. url_i entry = u) (entries (getCacheIndex s))")
  case None
  then show ?thesis
    by (simp add: getCacheIndex_updateCacheIndex filter_no_match)
next
  case (Some i)
  then show ?thesis
    by (simp add: getCacheIndex_updateCacheIndex splice1_first_match [OF assms Some])
qed

text \<open>Writing an entry and its index record keeps the agreement.\<close>

lemma consistent_write_at:
  assumes c: "consistent U t s"
    and inj: "inj_on getCacheKey U"
    and u: "u \<in> U"
    and t: "t \<le> t'"
    and n: "now' \<le> t'"
    and sz: "size_e entry = sz"
  shows "consistent U t' (updateCacheIndex now' u sz (setCacheData (getCacheKey u) (Entry entry) s))"
proof -
  let ?s1 = "setCacheData (getCacheKey u) (Entry entry) s"
  let ?s2 = "updateCacheIndex now' u sz ?s1"
  let ?rs = "entries (getCacheIndex s)"
  let ?new = "\<lparr>url_i = u, size_i = sz, timestamp_i = now'\<rparr>"
  let ?rs' = "filter (\<lambda>r. url_i r \<noteq> u) ?rs"
  from c have d: "distinct (map url_i ?rs)"
    and recs: "\<forall>x\<in>set ?rs. url_i x \<in> U \<and> timestamp_i x \<le> t
        \<and> (\<exists>e. getEntry s (url_i x) = Some e \<and> size_e e = size_i x)"
    and tot: "totalSize (getCacheIndex s) = (\<Sum>x\<leftarrow>?rs. int (size_i x))"
    and indexed: "\<forall>key e. prefix CACHE_PREFIX key \<longrightarrow> s key = Some (Entry e) \<longrightarrow>
        (\<exists>x\<in>set ?rs. key = CACHE_PREFIX @ getCacheKey (url_i x))"
    unfolding consistent_def consistentWith_def by simp_all
  have ents: "entries (getCacheIndex ?s2) = ?rs' @ [?new]"
    using entries_updateCacheIndex [of ?s1 now' u sz] d by simp
  have d2: "distinct (map url_i (?rs' @ [?new]))"
    using d by (auto simp: distinct_map_filter)
  have old: "url_i x \<in> U \<and> timestamp_i x \<le> t'
        \<and> (\<exists>e. getEntry ?s2 (url_i x) = Some e \<and> size_e e = size_i x)"
    if "x \<in> set ?rs'" for x
  proof -
    from that recs have x: "url_i x \<in> U" "timestamp_i x \<le> t" "url_i x \<noteq> u"
      and e: "\<exists>e. getEntry s (url_i x) = Some e \<and> size_e e = size_i x"
      by auto
    from x(1,3) u inj have "getCacheKey (url_i x) \<noteq> getCacheKey u"
      by (auto dest: inj_onD)
    with x e t show ?thesis
      by (simp add: getEntry_set_entry)
  qed
  have new: "getEntry ?s2 u = Some entry"
    by (simp add: getEntry_set_entry)
  have recs2: "\<forall>x\<in>set (?rs' @ [?new]). url_i x \<in> U \<and> timestamp_i x \<le> t'
        \<and> (\<exists>e. getEntry ?s2 (url_i x) = Some e \<and> size_e e = size_i x)"
    using old new u sz n by auto
  have "totalSize (getCacheIndex ?s2) - (\<Sum>r\<leftarrow>entries (getCacheIndex ?s2). int (size_i r))
      = totalSize (getCacheIndex s) - (\<Sum>r\<leftarrow>?rs. int (size_i r))"
    using drift_updateCacheIndex [of now' u sz ?s1] by simp
  with tot have tot2: "totalSize (getCacheIndex ?s2) = (\<Sum>r\<leftarrow>?rs' @ [?new]. int (size_i r))"
    by (simp add: ents)
  have indexed2: "\<exists>x\<in>set (?rs' @ [?new]). key = CACHE_PREFIX @ getCacheKey (url_i x)"
    if "prefix CACHE_PREFIX key" "?s2 key = Some (Entry e)" for key e
  proof (cases "key = CACHE_PREFIX @ getCacheKey u")
    case True
    then show ?thesis by simp
  next
    case False
    from that(2) have "?s1 key = Some (Entry e)"
      by (auto simp: updateCacheIndex_def Let_def setCacheData_def split: if_splits)
    with False have "s key = Some (Entry e)"
      by (simp add: setCacheData_def)
    with indexed that(1) obtain x where x: "x \<in> set ?rs" "key = CACHE_PREFIX @ getCacheKey (url_i x)"
      by blast
    with False have "url_i x \<noteq> u" by auto
    with x show ?thesis by auto
  qed
  show ?thesis
    unfolding consistent_def consistentWith_def ents
    using d2 recs2 tot2 [unfolded ents] indexed2 by simp
qed

lemma consistent_write:
  assumes "consistent U t s" "inj_on getCacheKey U" "u \<in> U" "t \<le> now'" "size_e entry = sz"
  shows "consistent U now' (updateCacheIndex now' u sz (setCacheData (getCacheKey u) (Entry entry) s))"
  using assms by (intro consistent_write_at [of U t]) simp_all

lemma consistent_cacheResource:
  assumes "consistent U t s" "inj_on getCacheKey U" "u \<in> U" "t \<le> now'"
  shows "consistent U now' (cacheResource now now' u d ct s)"
proof -
  have "consistent U now' (updateCacheIndex now' u (size_e (newEntry now u d ct))
      (setCacheData (getCacheKey u) (Entry (newEntry now u d ct)) s))"
    using assms by (intro consistent_write) simp_all
  from consistent_enforceCacheSizeLimit [OF this assms(2)] show ?thesis
    by (simp add: cacheResource_def Let_def)
qed

lemma consistent_removeCachedResource:
  assumes c: "consistent U t s" and inj: "inj_on getCacheKey U" and u: "u \<in> U"
  shows "consistent U t (removeCachedResource u s)"
proof (cases "getEntry s u")
  case None
  with c show ?thesis by (simp add: removeCachedResource_def)
next
  case (Some entry)
  let ?rs = "entries (getCacheIndex s)"
  from c have cw: "consistentWith U t \<lparr>totalSize = totalSize (getCacheIndex s), entries = ?rs\<rparr> s"
    by (simp add: consistent_def consistentWith_def)
  from c have d: "distinct (map url_i ?rs)"
    and recs: "\<forall>x\<in>set ?rs. url_i x \<in> U \<and> timestamp_i x \<le> t
        \<and> (\<exists>e. getEntry s (url_i x) = Some e \<and> size_e e = size_i x)"
    and indexed: "\<forall>key e. prefix CACHE_PREFIX key \<longrightarrow> s key = Some (Entry e) \<longrightarrow>
        (\<exists>x\<in>set ?rs. key = CACHE_PREFIX @ getCacheKey (url_i x))"
    unfolding consistent_def consistentWith_def by simp_all
  from Some have "s (CACHE_PREFIX @ getCacheKey u) = Some (Entry entry)"
    by (simp add: slot_Entry_iff)
  with indexed obtain r where r: "r \<in> set ?rs" "getCacheKey u = getCacheKey (url_i r)"
    by (metis prefixI same_append_eq)
  with recs u inj have ur: "url_i r = u"
    by (auto dest: inj_onD)
  with recs r(1) Some have size: "size_i r = size_e entry"
    by auto
  from r(1) ur obtain i where i: "findIndex (\<lambda>x. url_i x = u) ?rs = Some i"
    by (cases "findIndex (\<lambda>x. url_i x = u) ?rs") (auto simp: findIndex_None_iff)
  let ?s1 = "removeCacheData (getCacheKey u) s"
  have rem: "removeCachedResource u s =
      setCacheData CACHE_INDEX_KEY
        (Index \<lparr>totalSize = totalSize (getCacheIndex s) - int (size_i r),
                entries = filter (\<lambda>x. url_i x \<noteq> url_i r) ?rs\<rparr>) ?s1"
    using Some i splice1_first_match [OF d i]
    by (simp add: removeCachedResource_def removeFromCacheIndex_def Let_def size ur)
  from consistentWith_drop_record [OF cw inj r(1)]
  have "consistentWith U t
      \<lparr>totalSize = totalSize (getCacheIndex s) - int (size_i r),
       entries = filter (\<lambda>x. url_i x \<noteq> url_i r) ?rs\<rparr> ?s1"
    by (simp add: ur)
  then show ?thesis
    unfolding rem consistent_def by (simp add: consistentWith_set_index)
qed

lemma consistent_getCachedResource:
  assumes "consistent U t s" "inj_on getCacheKey U" "u \<in> U"
  shows "consistent U t (snd (getCachedResource now u s))"
  using assms consistent_removeCachedResource [OF assms]
  by (simp add: getCachedResource_def split: option.splits)

lemma consistent_no_cache_keys:
  assumes "\<forall>key. prefix CACHE_PREFIX key \<longrightarrow> s key = None"
  shows "consistent U t s"
  using assms by (simp add: consistent_def consistentWith_def getCacheIndex_no_cache_keys)

lemma consistent_clearCache: "consistent U t (clearCache s)"
  by (rule consistent_no_cache_keys)
    (simp add: clearCache_def removeCacheData_def clearAllCacheData_def)

lemma getEntry_setFirstTimeUser [simp]: "getEntry (setFirstTimeUser v s) u = getEntry s u"
  by (simp add: getEntry_def store_simps)

lemma consistent_setFirstTimeUser:
  assumes "consistent U t s"
  shows "consistent U t (setFirstTimeUser v s)"
proof -
  have "s key = Some (Entry e)" if "setFirstTimeUser v s key = Some (Entry e)" for key e
    using that by (auto simp: setFirstTimeUser_def split: if_splits)
  with assms show ?thesis
    unfolding consistent_def consistentWith_def by simp
qed

lemma reachable_consistent:
  assumes "reachable U t s" "inj_on getCacheKey U"
  shows "consistent U t s"
  using assms
proof (induction rule: reachable.induct)
  case (empty_cache s t)
  then show ?case by (simp add: consistent_no_cache_keys)
next
  case (clock t s t')
  then show ?case by (auto simp: consistent_def intro: consistentWith_later)
next
  case (cache t s u now now' d ct)
  then have "consistent U now s"
    by (auto simp: consistent_def intro: consistentWith_later)
  with cache show ?case by (simp add: consistent_cacheResource)
next
  case (read t s u now)
  then have "consistent U now s"
    by (auto simp: consistent_def intro: consistentWith_later)
  with read show ?case by (simp add: consistent_getCachedResource)
next
  case (remove t s u)
  then show ?case by (simp add: consistent_removeCachedResource)
next
  case (clear t s)
  then show ?case by (simp add: consistent_clearCache)
next
  case (flag t s v)
  then show ?case by (simp add: consistent_setFirstTimeUser)
qed

subsection \<open>The newest record is evicted last\<close>

lemma insort_key_snoc:
  "f x \<le> f y \<Longrightarrow> insort_key f x (zs @ [y]) = insort_key f x zs @ [y]"
  by (induction zs) simp_all

lemma sort_key_snoc:
  "\<forall>x\<in>set xs. f x \<le> f y \<Longrightarrow> sort_key f (xs @ [y]) = sort_key f xs @ [y]"
proof (induction xs)
  case Nil
  then show ?case by simp
next
  case (Cons x xs)
  then have "sort_key f (xs @ [y]) = sort_key f xs @ [y]" and "f x \<le> f y"
    by simp_all
  then show ?case
    by (simp add: insort_key_snoc)
qed

lemma evictLoop_keeps_last:
  assumes "\<forall>x\<in>set rs. getCacheKey (url_i x) \<noteq> getCacheKey u"
    and "tot - (\<Sum>x\<leftarrow>rs. int (size_i x)) \<le> MAX_CACHE_SIZE"
  shows "getEntry (snd (snd (evictLoop tot (rs @ [new]) s))) u = getEntry s u"
  using assms
proof (induction rs arbitrary: tot s)
  case Nil
  then show ?case by simp
next
  case (Cons r rs)
  show ?case
  proof (cases "tot > MAX_CACHE_SIZE")
    case False
    then show ?thesis by simp
  next
    case True
    from Cons.prems have "\<forall>x\<in>set rs. getCacheKey (url_i x) \<noteq> getCacheKey u"
      and "tot - int (size_i r) - (\<Sum>x\<leftarrow>rs. int (size_i x)) \<le> MAX_CACHE_SIZE"
      and ne: "getCacheKey u \<noteq> getCacheKey (url_i r)"
      by (auto simp: algebra_simps)
    from Cons.IH [OF this(1,2), of "removeCacheData (getCacheKey (url_i r)) s"] True ne
    show ?thesis
      by (simp add: getEntry_remove_entry)
  qed
qed

text \<open>What \<open>cacheResource\<close> leaves under the key of its URL, in a store that agrees with its index.\<close>

lemma getEntry_cacheResource_consistent:
  assumes c: "consistent U t s"
    and inj: "inj_on getCacheKey U"
    and u: "u \<in> U"
    and t: "t \<le> now'"
    and small: "int (length d) \<le> MAX_CACHE_SIZE"
  shows "getEntry (cacheResource now now' u d ct s) u = Some (newEntry now u d ct)"
proof -
  let ?e = "newEntry now u d ct"
  let ?s1 = "setCacheData (getCacheKey u) (Entry ?e) s"
  let ?s2 = "updateCacheIndex now' u (length d) ?s1"
  let ?new = "\<lparr>url_i = u, size_i = length d, timestamp_i = now'\<rparr>"
  let ?rs = "filter (\<lambda>r. url_i r \<noteq> u) (entries (getCacheIndex s))"
  have sz: "size_e ?e = length d"
    by (simp add: newEntry_def)
  have cr: "cacheResource now now' u d ct s = enforceCacheSizeLimit ?s2"
    by (simp add: cacheResource_def Let_def sz)
  have e2: "getEntry ?s2 u = Some ?e"
    by (simp add: getEntry_set_entry)
  from c have d: "distinct (map url_i (entries (getCacheIndex s)))"
    and recs: "\<forall>x\<in>set (entries (getCacheIndex s)). url_i x \<in> U \<and> timestamp_i x \<le> t"
    unfolding consistent_def consistentWith_def by simp_all
  have ents: "entries (getCacheIndex ?s2) = ?rs @ [?new]"
    using entries_updateCacheIndex [of ?s1 now' u "length d"] d by simp
  from consistent_write [OF c inj u t sz]
  have tot: "totalSize (getCacheIndex ?s2) = (\<Sum>x\<leftarrow>?rs @ [?new]. int (size_i x))"
    unfolding consistent_def consistentWith_def ents by simp
  show ?thesis
  proof (cases "totalSize (getCacheIndex ?s2) \<le> MAX_CACHE_SIZE")
    case True
    then show ?thesis
      by (simp only: cr enforceCacheSizeLimit_within e2)
  next
    case False
    let ?sorted = "sort_key timestamp_i ?rs"
    have "\<forall>x\<in>set ?rs. timestamp_i x \<le> timestamp_i ?new"
      using recs t by auto
    then have sorted: "sort_key timestamp_i (entries (getCacheIndex ?s2)) = ?sorted @ [?new]"
      by (simp add: ents sort_key_snoc)
    have keys: "\<forall>x\<in>set ?sorted. getCacheKey (url_i x) \<noteq> getCacheKey u"
      using recs u inj by (auto dest: inj_onD)
    have "totalSize (getCacheIndex ?s2) - (\<Sum>x\<leftarrow>?sorted. int (size_i x)) = int (length d)"
      by (simp add: tot sum_list_sort_key)
    with small have rest: "totalSize (getCacheIndex ?s2) - (\<Sum>x\<leftarrow>?sorted. int (size_i x))
        \<le> MAX_CACHE_SIZE"
      by simp
    from evictLoop_keeps_last [OF keys rest, of ?new ?s2]
    have "getEntry (snd (snd (evictLoop (totalSize (getCacheIndex ?s2)) (?sorted @ [?new]) ?s2))) u
        = Some ?e"
      by (simp only: e2)
    with False show ?thesis
      by (auto simp: cr enforceCacheSizeLimit_def Let_def sorted split: prod.splits)
  qed
qed

text \<open>An entry larger than the limit, written into a cache with an empty index.\<close>

lemma getEntry_cacheResource_oversized:
  assumes "getCacheIndex s = \<lparr>totalSize = 0, entries = []\<rparr>" "int (length d) > MAX_CACHE_SIZE"
  shows "getEntry (cacheResource now now' u d ct s) u = None"
proof -
  let ?s1 = "setCacheData (getCacheKey u) (Entry (newEntry now u d ct)) s"
  let ?s2 = "updateCacheIndex now' u (length d) ?s1"
  have sz: "size_e (newEntry now u d ct) = length d"
    by (simp add: newEntry_def)
  have idx: "getCacheIndex ?s2 =
      \<lparr>totalSize = int (length d), entries = [\<lparr>url_i = u, size_i = length d, timestamp_i = now'\<rparr>]\<rparr>"
    using assms(1) by (simp add: getCacheIndex_updateCacheIndex)
  have "enforceCacheSizeLimit ?s2 =
      setCacheData CACHE_INDEX_KEY (Index \<lparr>totalSize = 0, entries = []\<rparr>)
        (removeCacheData (getCacheKey u) ?s2)"
    using assms(2) by (simp add: enforceCacheSizeLimit_def idx Let_def)
  then show ?thesis
    by (simp add: cacheResource_def Let_def sz getEntry_remove_entry)
qed

subsection \<open>One record per URL\<close>

lemma distinct_splice1: "distinct ys \<Longrightarrow> distinct (splice1 i ys)"
proof -
  assume d: "distinct ys"
  have sub: "set (drop (Suc i) ys) \<subseteq> set (drop i ys)"
    by (rule set_drop_subset_set_drop) simp
  from d have "distinct (take i ys @ drop i ys)"
    by simp
  then have "set (take i ys) \<inter> set (drop i ys) = {}"
    by (simp only: distinct_append)
  with sub have "set (take i ys) \<inter> set (drop (Suc i) ys) = {}"
    by blast
  with d show ?thesis
    by (simp add: splice1_def)
qed

lemma distinct_map_splice1: "distinct (map f xs) \<Longrightarrow> distinct (map f (splice1 i xs))"
  using distinct_splice1 [of "map f xs" i] by (simp add: splice1_def take_map drop_map)

lemma distinct_urls_updateCacheIndex:
  assumes "distinct (map url_i (entries (getCacheIndex s)))"
  shows "distinct (map url_i (entries (getCacheIndex (updateCacheIndex now u sz s))))"
  using assms by (auto simp: entries_updateCacheIndex [OF assms] distinct_map_filter)

lemma distinct_urls_removeCachedResource:
  assumes "distinct (map url_i (entries (getCacheIndex s)))"
  shows "distinct (map url_i (entries (getCacheIndex (removeCachedResource u s))))"
  using assms
  by (simp add: removeCachedResource_def getCacheIndex_removeFromCacheIndex distinct_map_splice1
      split: option.splits)

lemma distinct_urls_enforceCacheSizeLimit:
  assumes "distinct (map url_i (entries (getCacheIndex s)))"
  shows "distinct (map url_i (entries (getCacheIndex (enforceCacheSizeLimit s))))"
proof (cases "totalSize (getCacheIndex s) \<le> MAX_CACHE_SIZE")
  case True
  with assms show ?thesis by (simp add: enforceCacheSizeLimit_within)
next
  case False
  then have "totalSize (getCacheIndex s) > MAX_CACHE_SIZE" by simp
  from enforceCacheSizeLimit_spec [OF this] obtain k where
    "entries (getCacheIndex (enforceCacheSizeLimit s))
       = drop k (sort_key timestamp_i (entries (getCacheIndex s)))"
    by force
  moreover have "distinct (map url_i (sort_key timestamp_i (entries (getCacheIndex s))))"
    using assms by (simp add: distinct_map)
  ultimately show ?thesis
    by (simp add: drop_map [symmetric] del: drop_map)
qed

lemma reachable_distinct_urls:
  "reachable U t s \<Longrightarrow> distinct (map url_i (entries (getCacheIndex s)))"
proof (induction rule: reachable.induct)
  case (empty_cache s t)
  then show ?case by (simp add: getCacheIndex_no_cache_keys)
next
  case (clock t s t')
  then show ?case by simp
next
  case (cache t s u now now' d ct)
  then have "distinct (map url_i (entries (getCacheIndex
      (setCacheData (getCacheKey u) (Entry (newEntry now u d ct)) s))))"
    by simp
  then show ?case
    by (simp add: cacheResource_def Let_def distinct_urls_enforceCacheSizeLimit
        distinct_urls_updateCacheIndex)
next
  case (read t s u now)
  then show ?case
    by (simp add: getCachedResource_def distinct_urls_removeCachedResource split: option.splits)
next
  case (remove t s u)
  then show ?case by (simp add: distinct_urls_removeCachedResource)
next
  case (clear t s)
  then show ?case by simp
next
  case (flag t s v)
  then show ?case by simp
qed

subsection \<open>Stores reached with any clock\<close>

lemma reachable_reached: "reachable U t s \<Longrightarrow> reached U s"
  by (induction rule: reachable.induct) (auto intro: reached.intros)

lemma reached_total_bound: "reached U s \<Longrightarrow> totalSize (getCacheIndex s) \<le> MAX_CACHE_SIZE"
proof (induction rule: reached.induct)
  case (reached_empty s)
  then show ?case
    by (simp add: getCacheIndex_no_cache_keys MAX_CACHE_SIZE_def)
next
  case (reached_cache s u now now' d ct)
  then show ?case by (simp add: cacheResource_bound)
next
  case (reached_read s u now)
  with getCachedResource_total [of now u s] show ?case by simp
next
  case (reached_remove s u)
  with removeCachedResource_total [of u s] show ?case by simp
next
  case (reached_clear s)
  then show ?case by (simp add: MAX_CACHE_SIZE_def)
next
  case (reached_flag s v)
  then show ?case by simp
qed

lemma reached_consistent:
  assumes "reached U s" "inj_on getCacheKey U"
  shows "\<exists>t. consistent U t s"
  using assms
proof (induction rule: reached.induct)
  case (reached_empty s)
  then show ?case by (auto intro: consistent_no_cache_keys)
next
  case (reached_cache s u now now' d ct)
  then obtain t where "consistent U t s" by blast
  with reached_cache.hyps(2) reached_cache.prems
  have "consistent U (max t now') (updateCacheIndex now' u (size_e (newEntry now u d ct))
      (setCacheData (getCacheKey u) (Entry (newEntry now u d ct)) s))"
    by (intro consistent_write_at [of U t]) simp_all
  from consistent_enforceCacheSizeLimit [OF this reached_cache.prems] show ?case
    by (auto simp: cacheResource_def Let_def)
next
  case (reached_read s u now)
  then show ?case by (auto intro: consistent_getCachedResource)
next
  case (reached_remove s u)
  then show ?case by (auto intro: consistent_removeCachedResource)
next
  case (reached_clear s)
  then show ?case by (auto intro: consistent_clearCache)
next
  case (reached_flag s v)
  then show ?case by (auto intro: consistent_setFirstTimeUser)
qed

subsection \<open>A colliding pair of writes\<close>

text \<open>Two writes of 30 MiB each, for URLs that share a key, step by step.\<close>

lemma colliding_writes:
  fixes t t' :: int
  assumes "t \<le> t'"
  defines "pre \<equiv> updateCacheIndex t' (js ''https://x/BB'') 31457280
       (setCacheData (getCacheKey (js ''https://x/BB''))
          (Entry (newEntry t' (js ''https://x/BB'') (replicate 31457280 66) (js ''text/html'')))
          (cacheResource t t (js ''https://x/Aa'') (replicate 31457280 65) (js ''text/html'')
             Map.empty))"
  shows "cacheResource t' t' (js ''https://x/BB'') (replicate 31457280 66) (js ''text/html'')
           (cacheResource t t (js ''https://x/Aa'') (replicate 31457280 65) (js ''text/html'')
              Map.empty)
         = setCacheData CACHE_INDEX_KEY
             (Index \<lparr>totalSize = 31457280,
                     entries = [\<lparr>url_i = js ''https://x/BB'', size_i = 31457280, timestamp_i = t'\<rparr>]\<rparr>)
             (removeCacheData (getCacheKey (js ''https://x/Aa'')) pre)"
    and "getEntry pre (js ''https://x/BB'')
         = Some (newEntry t' (js ''https://x/BB'') (replicate 31457280 66) (js ''text/html''))"
proof -
  let ?p = "js ''https://x/Aa''" and ?q = "js ''https://x/BB''"
  let ?rp = "\<lparr>url_i = ?p, size_i = 31457280, timestamp_i = t\<rparr>"
  let ?rq = "\<lparr>url_i = ?q, size_i = 31457280, timestamp_i = t'\<rparr>"
  let ?s1 = "cacheResource t t ?p (replicate 31457280 65) (js ''text/html'') Map.empty"
  have idx1: "getCacheIndex ?s1 = \<lparr>totalSize = 31457280, entries = [?rp]\<rparr>"
    by (subst cacheResource_first) (simp_all add: MAX_CACHE_SIZE_def)
  have idx2: "getCacheIndex pre = \<lparr>totalSize = 62914560, entries = [?rp, ?rq]\<rparr>"
    unfolding pre_def using colliding_urls_differ
    by (simp add: getCacheIndex_updateCacheIndex idx1)
  have enf: "enforceCacheSizeLimit pre =
      setCacheData CACHE_INDEX_KEY (Index \<lparr>totalSize = 31457280, entries = [?rq]\<rparr>)
        (removeCacheData (getCacheKey ?p) pre)"
    using assms(1) by (simp add: enforceCacheSizeLimit_def idx2 Let_def MAX_CACHE_SIZE_def)
  have "cacheResource t' t' ?q (replicate 31457280 66) (js ''text/html'') ?s1
      = enforceCacheSizeLimit pre"
    by (simp add: cacheResource_def Let_def newEntry_def pre_def)
  with enf show "cacheResource t' t' ?q (replicate 31457280 66) (js ''text/html'') ?s1
         = setCacheData CACHE_INDEX_KEY (Index \<lparr>totalSize = 31457280, entries = [?rq]\<rparr>)
             (removeCacheData (getCacheKey ?p) pre)"
    by simp
  show "getEntry pre ?q = Some (newEntry t' ?q (replicate 31457280 66) (js ''text/html''))"
    by (simp add: pre_def getEntry_set_entry)
qed

subsection \<open>Writes and removals on a colliding pair\<close>

lemma removeCachedResource_present:
  "getEntry s u = Some entry \<Longrightarrow>
   removeCachedResource u s = removeFromCacheIndex u (size_e entry) (removeCacheData (getCacheKey u) s)"
  by (simp add: removeCachedResource_def)

text \<open>
  Five code units are cached for \<open>https://x/Aa\<close>, two for \<open>https://x/BB\<close>, which shares
  its key, and the first is removed: the removal empties the shared slot and subtracts
  the size of the entry it found there, 2, for a record of size 5. The index is left with
  the record of the second URL, which has no entry, and a total of 5.
\<close>

lemma colliding_remove:
  defines "s3 \<equiv> removeCachedResource (js ''https://x/Aa'')
       (cacheResource 0 0 (js ''https://x/BB'') (replicate 2 66) (js ''text/html'')
          (cacheResource 0 0 (js ''https://x/Aa'') (replicate 5 65) (js ''text/html'') Map.empty))"
  shows "getCacheIndex s3 =
           \<lparr>totalSize = 5, entries = [\<lparr>url_i = js ''https://x/BB'', size_i = 2, timestamp_i = 0\<rparr>]\<rparr>"
    and "getCacheData s3 (getCacheKey (js ''https://x/BB'')) = None"
    and "reached UNIV s3"
proof -
  let ?p = "js ''https://x/Aa''" and ?q = "js ''https://x/BB''"
  let ?rp = "\<lparr>url_i = ?p, size_i = 5, timestamp_i = 0\<rparr>"
  let ?rq = "\<lparr>url_i = ?q, size_i = 2, timestamp_i = 0\<rparr>"
  let ?eq = "newEntry 0 ?q (replicate 2 66) (js ''text/html'')"
  let ?s1 = "cacheResource 0 0 ?p (replicate 5 65) (js ''text/html'') Map.empty"
  let ?s1' = "setCacheData (getCacheKey ?q) (Entry ?eq) ?s1"
  let ?s2 = "cacheResource 0 0 ?q (replicate 2 66) (js ''text/html'') ?s1"
  have idx1: "getCacheIndex ?s1 = \<lparr>totalSize = 5, entries = [?rp]\<rparr>"
    by (subst cacheResource_first) (simp_all add: MAX_CACHE_SIZE_def)
  have idx2': "getCacheIndex (updateCacheIndex 0 ?q 2 ?s1') = \<lparr>totalSize = 7, entries = [?rp, ?rq]\<rparr>"
    using colliding_urls_differ by (simp add: getCacheIndex_updateCacheIndex idx1)
  have s2: "?s2 = updateCacheIndex 0 ?q 2 ?s1'"
    by (subst cacheResource_within) (simp_all add: idx2' MAX_CACHE_SIZE_def)
  have idx2: "getCacheIndex ?s2 = \<lparr>totalSize = 7, entries = [?rp, ?rq]\<rparr>"
    by (simp only: s2 idx2')
  have e2: "getEntry ?s2 ?p = Some ?eq"
    by (simp add: s2 getEntry_set_entry colliding_keys_equal)
  have s3: "s3 = removeFromCacheIndex ?p 2 (removeCacheData (getCacheKey ?p) ?s2)"
    unfolding s3_def by (simp add: removeCachedResource_present [OF e2] newEntry_def)
  show "getCacheIndex s3 = \<lparr>totalSize = 5, entries = [?rq]\<rparr>"
    by (simp add: s3 getCacheIndex_removeFromCacheIndex idx2 splice1_def)
  show "getCacheData s3 (getCacheKey ?q) = None"
    by (simp add: s3 removeFromCacheIndex_def Let_def idx2 store_simps colliding_keys_equal)
  have "reached UNIV Map.empty"
    by (rule reached.reached_empty) simp
  then have "reached UNIV ?s1"
    by (rule reached.reached_cache) simp
  then have "reached UNIV ?s2"
    by (rule reached.reached_cache) simp
  then show "reached UNIV s3"
    unfolding s3_def by (rule reached.reached_remove) simp
qed

text \<open>
  Then the empty string is cached for the second URL, and the second URL is removed: the
  index has no record left, and a total of 3.
\<close>

lemma colliding_remove_both:
  defines "s5 \<equiv> removeCachedResource (js ''https://x/BB'')
       (cacheResource 0 0 (js ''https://x/BB'') [] (js ''text/html'')
          (removeCachedResource (js ''https://x/Aa'')
             (cacheResource 0 0 (js ''https://x/BB'') (replicate 2 66) (js ''text/html'')
                (cacheResource 0 0 (js ''https://x/Aa'') (replicate 5 65) (js ''text/html'')
                   Map.empty))))"
  shows "getCacheIndex s5 = \<lparr>totalSize = 3, entries = []\<rparr>"
    and "reached UNIV s5"
proof -
  let ?p = "js ''https://x/Aa''" and ?q = "js ''https://x/BB''"
  let ?rq = "\<lparr>url_i = ?q, size_i = 2, timestamp_i = 0\<rparr>"
  let ?rq' = "\<lparr>url_i = ?q, size_i = 0, timestamp_i = 0\<rparr>"
  let ?e = "newEntry 0 ?q [] (js ''text/html'')"
  let ?s3 = "removeCachedResource ?p
       (cacheResource 0 0 ?q (replicate 2 66) (js ''text/html'')
          (cacheResource 0 0 ?p (replicate 5 65) (js ''text/html'') Map.empty))"
  let ?s3' = "setCacheData (getCacheKey ?q) (Entry ?e) ?s3"
  let ?s4 = "cacheResource 0 0 ?q [] (js ''text/html'') ?s3"
  have idx4': "getCacheIndex (updateCacheIndex 0 ?q 0 ?s3') = \<lparr>totalSize = 3, entries = [?rq']\<rparr>"
    by (simp add: getCacheIndex_updateCacheIndex colliding_remove(1) splice1_def)
  have s4: "?s4 = updateCacheIndex 0 ?q 0 ?s3'"
    by (subst cacheResource_within) (simp_all add: idx4' MAX_CACHE_SIZE_def)
  have idx4: "getCacheIndex ?s4 = \<lparr>totalSize = 3, entries = [?rq']\<rparr>"
    by (simp only: s4 idx4')
  have e4: "getEntry ?s4 ?q = Some ?e"
    by (simp add: s4 getEntry_set_entry)
  have s5: "s5 = removeFromCacheIndex ?q 0 (removeCacheData (getCacheKey ?q) ?s4)"
    unfolding s5_def by (simp add: removeCachedResource_present [OF e4] newEntry_def)
  show "getCacheIndex s5 = \<lparr>totalSize = 3, entries = []\<rparr>"
    by (simp add: s5 getCacheIndex_removeFromCacheIndex idx4 splice1_def)
  from colliding_remove(3) have "reached UNIV ?s4"
    by (rule reached.reached_cache) simp
  then show "reached UNIV s5"
    unfolding s5_def by (rule reached.reached_remove) simp
qed

section \<open>Reading back what was just cached\<close>

text \<open>
  Claim C1, as amended. In a store reached from an empty cache on URLs whose storage
  keys do not collide, after \<open>cacheResource\<close> stores data of at most 50 MiB for \<open>u\<close>,
  \<open>getCachedResource u\<close> returns that data at any time up to the entry's expiry; in
  particular when no time has passed.
\<close>

theorem cacheResource_then_getCachedResource:
  assumes "reachable U t s"
    and "inj_on getCacheKey U"
    and "u \<in> U"
    and "t \<le> now" and "now \<le> now'"
    and "int (length d) \<le> MAX_CACHE_SIZE"
    and "later \<le> now + getExpirationTime ct"
  shows "fst (getCachedResource later u (cacheResource now now' u d ct s)) = Some d"
proof -
  from assms(1,2) have "consistent U t s"
    by (rule reachable_consistent)
  from getEntry_cacheResource_consistent [OF this assms(2,3) _ assms(6), of now' now ct] assms(4,5)
  have "getEntry (cacheResource now now' u d ct s) u = Some (newEntry now u d ct)"
    by simp
  with assms(7) show ?thesis
    by (simp add: getCachedResource_def newEntry_def)
qed

theorem cacheResource_then_getCachedResource_witness:
  "reachable {js ''https://x/a'', js ''https://x/b''} 0
     (cacheResource 0 0 (js ''https://x/b'') (replicate 10 66) (js ''text/css'') Map.empty)
   \<and> inj_on getCacheKey {js ''https://x/a'', js ''https://x/b''}
   \<and> int (length (replicate 10 (65 :: jschar))) \<le> MAX_CACHE_SIZE
   \<and> (5 :: int) \<le> 5 + getExpirationTime (js ''text/html'')
   \<and> fst (getCachedResource 5 (js ''https://x/a'')
        (cacheResource 5 5 (js ''https://x/a'') (replicate 10 65) (js ''text/html'')
          (cacheResource 0 0 (js ''https://x/b'') (replicate 10 66) (js ''text/css'') Map.empty)))
      = Some (replicate 10 65)"
proof -
  let ?U = "{js ''https://x/a'', js ''https://x/b''}"
  let ?s = "cacheResource 0 0 (js ''https://x/b'') (replicate 10 66) (js ''text/css'') Map.empty"
  have "reachable ?U 0 Map.empty"
    by (rule reachable.empty_cache) simp
  then have reach: "reachable ?U 0 ?s"
    by (rule reachable.cache) simp_all
  have inj: "inj_on getCacheKey ?U"
    using sample_keys_differ by auto
  have small: "int (length (replicate 10 (65 :: jschar))) \<le> MAX_CACHE_SIZE"
    by (simp add: MAX_CACHE_SIZE_def)
  have fresh: "(5 :: int) \<le> 5 + getExpirationTime (js ''text/html'')"
    by (simp add: expiration_html)
  from cacheResource_then_getCachedResource [OF reach inj _ _ _ small fresh, of "js ''https://x/a''" 5]
    reach inj small fresh
  show ?thesis
    by simp
qed

text \<open>
  The claim as stated fails for data above the limit: the enforcement at the end of the
  same call evicts the entry just written.
\<close>

theorem oversized_entry_not_retrievable:
  "fst (getCachedResource 0 (js ''https://x/a'')
     (cacheResource 0 0 (js ''https://x/a'') (replicate 52428801 65) (js ''text/html'') Map.empty))
   = None"
proof -
  have "int (length (replicate 52428801 (65 :: jschar))) > MAX_CACHE_SIZE"
    by (simp add: MAX_CACHE_SIZE_def)
  from getEntry_cacheResource_oversized [OF getCacheIndex_empty this] show ?thesis
    by (simp add: getCachedResource_def)
qed

text \<open>
  The condition on the keys is needed: \<open>https://x/Aa\<close> and \<open>https://x/BB\<close> share a
  key, and when 30 MiB are cached for each, the eviction of the older record empties
  the slot that holds the newer entry.
\<close>

lemma colliding_write_not_retrievable:
  "fst (getCachedResource 1 (js ''https://x/BB'')
     (cacheResource 1 1 (js ''https://x/BB'') (replicate 31457280 66) (js ''text/html'')
        (cacheResource 0 0 (js ''https://x/Aa'') (replicate 31457280 65) (js ''text/html'')
           Map.empty)))
   = None"
proof -
  let ?p = "js ''https://x/Aa''" and ?q = "js ''https://x/BB''"
  let ?rp = "\<lparr>url_i = ?p, size_i = 31457280, timestamp_i = 0\<rparr>"
  let ?rq = "\<lparr>url_i = ?q, size_i = 31457280, timestamp_i = 1\<rparr>"
  let ?s1 = "cacheResource 0 0 ?p (replicate 31457280 65) (js ''text/html'') Map.empty"
  let ?e = "newEntry 1 ?q (replicate 31457280 66) (js ''text/html'')"
  let ?s2 = "updateCacheIndex 1 ?q 31457280 (setCacheData (getCacheKey ?q) (Entry ?e) ?s1)"
  have idx1: "getCacheIndex ?s1 = \<lparr>totalSize = 31457280, entries = [?rp]\<rparr>"
    by (subst cacheResource_first) (simp_all add: MAX_CACHE_SIZE_def)
  have idx2: "getCacheIndex ?s2 = \<lparr>totalSize = 62914560, entries = [?rp, ?rq]\<rparr>"
    using colliding_urls_differ by (simp add: getCacheIndex_updateCacheIndex idx1)
  have "enforceCacheSizeLimit ?s2 =
      setCacheData CACHE_INDEX_KEY (Index \<lparr>totalSize = 31457280, entries = [?rq]\<rparr>)
        (removeCacheData (getCacheKey ?p) ?s2)"
    by (simp add: enforceCacheSizeLimit_def idx2 Let_def MAX_CACHE_SIZE_def)
  then have "getEntry (enforceCacheSizeLimit ?s2) ?q = None"
    by (simp add: getEntry_remove_entry colliding_keys_equal)
  moreover have "cacheResource 1 1 ?q (replicate 31457280 66) (js ''text/html'') ?s1
      = enforceCacheSizeLimit ?s2"
    by (simp add: cacheResource_def Let_def newEntry_def)
  ultimately show ?thesis
    by (simp add: getCachedResource_def)
qed

section \<open>The size limit\<close>

lemma distinct_take_drop_disjoint:
  assumes "distinct (map f xs)" "a \<in> set (take k xs)" "b \<in> set (drop k xs)"
  shows "f a \<noteq> f b"
proof -
  have "distinct (map f (take k xs @ drop k xs))"
    using assms(1) by simp
  then have "f ` set (take k xs) \<inter> f ` set (drop k xs) = {}"
    by (simp only: map_append distinct_append set_map)
  with assms(2,3) show ?thesis
    by blast
qed

text \<open>
  Claim C2, as amended. In every store reached from an empty cache, the size
  \<open>getCacheSize\<close> reports after a call of \<open>cacheResource\<close> is at most 50 MiB. When the
  URLs in use have distinct storage keys, the call replaces the record of its URL by a
  new record at the end of the index, and
  \<^item> when the sizes of those records sum to at most 50 MiB, it leaves exactly those
    records, each with its entry;
  \<^item> otherwise it evicts the first \<open>k > 0\<close> of those records in ascending order of
    timestamp: the index keeps the others, each with its entry; every evicted URL has
    lost its entry and its record; the total is smaller by the sizes of the evicted
    records; no evicted record is newer than a record kept; the total was above the
    limit before each eviction, and at the end it is within the limit or no record
    remains.
\<close>

theorem size_limit_enforced:
  assumes "reached U s"
  shows "getCacheSize (cacheResource now now' u d ct s) \<le> MAX_CACHE_SIZE
   \<and> (inj_on getCacheKey U \<and> u \<in> U \<longrightarrow>
       (let updated = filter (\<lambda>r. url_i r \<noteq> u) (entries (getCacheIndex s))
                        @ [\<lparr>url_i = u, size_i = length d, timestamp_i = now'\<rparr>];
            sorted = sort_key timestamp_i updated;
            s' = cacheResource now now' u d ct s
        in ((\<Sum>r\<leftarrow>updated. int (size_i r)) \<le> MAX_CACHE_SIZE \<longrightarrow>
              getCacheIndex s' = \<lparr>totalSize = (\<Sum>r\<leftarrow>updated. int (size_i r)), entries = updated\<rparr>
            \<and> (\<forall>r\<in>set updated. \<exists>entry. getEntry s' (url_i r) = Some entry \<and> size_e entry = size_i r))
         \<and> ((\<Sum>r\<leftarrow>updated. int (size_i r)) > MAX_CACHE_SIZE \<longrightarrow>
              (\<exists>k. 0 < k \<and> k \<le> length sorted
                 \<and> getCacheIndex s' =
                     \<lparr>totalSize = (\<Sum>r\<leftarrow>updated. int (size_i r)) - (\<Sum>r\<leftarrow>take k sorted. int (size_i r)),
                      entries = drop k sorted\<rparr>
                 \<and> (\<forall>r\<in>set (take k sorted).
                       getEntry s' (url_i r) = None \<and> url_i r \<notin> url_i ` set (drop k sorted))
                 \<and> (\<forall>r\<in>set (drop k sorted).
                       \<exists>entry. getEntry s' (url_i r) = Some entry \<and> size_e entry = size_i r)
                 \<and> (\<forall>a\<in>set (take k sorted). \<forall>b\<in>set (drop k sorted). timestamp_i a \<le> timestamp_i b)
                 \<and> (\<forall>j<k. (\<Sum>r\<leftarrow>updated. int (size_i r)) - (\<Sum>r\<leftarrow>take j sorted. int (size_i r))
                           > MAX_CACHE_SIZE)
                 \<and> ((\<Sum>r\<leftarrow>updated. int (size_i r)) - (\<Sum>r\<leftarrow>take k sorted. int (size_i r))
                       \<le> MAX_CACHE_SIZE
                     \<or> drop k sorted = [])))))"
proof (intro conjI impI)
  show "getCacheSize (cacheResource now now' u d ct s) \<le> MAX_CACHE_SIZE"
    using reached_total_bound [OF assms] by (simp add: getCacheSize_def cacheResource_bound)
next
  assume "inj_on getCacheKey U \<and> u \<in> U"
  then have inj: "inj_on getCacheKey U" and u: "u \<in> U"
    by simp_all
  let ?new = "\<lparr>url_i = u, size_i = length d, timestamp_i = now'\<rparr>"
  let ?updated = "filter (\<lambda>r. url_i r \<noteq> u) (entries (getCacheIndex s)) @ [?new]"
  let ?sorted = "sort_key timestamp_i ?updated"
  let ?sum = "\<Sum>r\<leftarrow>?updated. int (size_i r)"
  let ?s2 = "updateCacheIndex now' u (length d)
      (setCacheData (getCacheKey u) (Entry (newEntry now u d ct)) s)"
  let ?s' = "cacheResource now now' u d ct s"
  have sz: "size_e (newEntry now u d ct) = length d"
    by (simp add: newEntry_def)
  have cr: "?s' = enforceCacheSizeLimit ?s2"
    by (simp add: cacheResource_def Let_def sz)
  from reached_consistent [OF assms inj] obtain t where c: "consistent U t s"
    by blast
  have c2: "consistent U (max t now') ?s2"
    using c inj u sz by (intro consistent_write_at [of U t]) simp_all
  from c have d: "distinct (map url_i (entries (getCacheIndex s)))"
    by (simp add: consistent_def consistentWith_def)
  have ents2: "entries (getCacheIndex ?s2) = ?updated"
    using entries_updateCacheIndex [of "setCacheData (getCacheKey u) (Entry (newEntry now u d ct)) s"
        now' u "length d"] d
    by simp
  from c2 have tot2: "totalSize (getCacheIndex ?s2) = ?sum"
    and d2: "distinct (map url_i ?updated)"
    and recs2: "\<forall>r\<in>set ?updated. \<exists>entry. getEntry ?s2 (url_i r) = Some entry \<and> size_e entry = size_i r"
    unfolding consistent_def consistentWith_def ents2 by simp_all
  have c': "consistent U (max t now') ?s'"
    unfolding cr using c2 inj by (rule consistent_enforceCacheSizeLimit)
  have within: "getCacheIndex ?s' = \<lparr>totalSize = ?sum, entries = ?updated\<rparr>
      \<and> (\<forall>r\<in>set ?updated. \<exists>entry. getEntry ?s' (url_i r) = Some entry \<and> size_e entry = size_i r)"
    if "?sum \<le> MAX_CACHE_SIZE"
  proof -
    from that have "?s' = ?s2"
      by (simp add: cr tot2 enforceCacheSizeLimit_within)
    with recs2 ents2 tot2 show ?thesis
      by simp
  qed
  have above: "\<exists>k. 0 < k \<and> k \<le> length ?sorted
       \<and> getCacheIndex ?s' =
           \<lparr>totalSize = ?sum - (\<Sum>r\<leftarrow>take k ?sorted. int (size_i r)), entries = drop k ?sorted\<rparr>
       \<and> (\<forall>r\<in>set (take k ?sorted).
             getEntry ?s' (url_i r) = None \<and> url_i r \<notin> url_i ` set (drop k ?sorted))
       \<and> (\<forall>r\<in>set (drop k ?sorted).
             \<exists>entry. getEntry ?s' (url_i r) = Some entry \<and> size_e entry = size_i r)
       \<and> (\<forall>a\<in>set (take k ?sorted). \<forall>b\<in>set (drop k ?sorted). timestamp_i a \<le> timestamp_i b)
       \<and> (\<forall>j<k. ?sum - (\<Sum>r\<leftarrow>take j ?sorted. int (size_i r)) > MAX_CACHE_SIZE)
       \<and> (?sum - (\<Sum>r\<leftarrow>take k ?sorted. int (size_i r)) \<le> MAX_CACHE_SIZE \<or> drop k ?sorted = [])"
    if over: "?sum > MAX_CACHE_SIZE"
  proof -
    from over have "totalSize (getCacheIndex ?s2) > MAX_CACHE_SIZE"
      by (simp add: tot2)
    from enforceCacheSizeLimit_spec [OF this] obtain k
      where k: "k \<le> length ?sorted"
        and enf: "?s' =
           setCacheData CACHE_INDEX_KEY
             (Index \<lparr>totalSize = ?sum - (\<Sum>r\<leftarrow>take k ?sorted. int (size_i r)),
                     entries = drop k ?sorted\<rparr>)
             (\<lambda>key. if key \<in> (\<lambda>r. CACHE_PREFIX @ getCacheKey (url_i r)) ` set (take k ?sorted)
                    then None else ?s2 key)"
        and before: "\<forall>j<k. ?sum - (\<Sum>r\<leftarrow>take j ?sorted. int (size_i r)) > MAX_CACHE_SIZE"
        and stop: "?sum - (\<Sum>r\<leftarrow>take k ?sorted. int (size_i r)) \<le> MAX_CACHE_SIZE
            \<or> k = length ?sorted"
      unfolding cr tot2 ents2 by auto
    have idx: "getCacheIndex ?s' =
        \<lparr>totalSize = ?sum - (\<Sum>r\<leftarrow>take k ?sorted. int (size_i r)), entries = drop k ?sorted\<rparr>"
      by (subst enf) simp
    have pos: "0 < k"
    proof (rule ccontr)
      assume "\<not> 0 < k"
      then have "k = 0" by simp
      with stop over show False by simp
    qed
    have dsorted: "distinct (map url_i ?sorted)"
      using d2 by (simp only: distinct_map distinct_sort set_sort) 
    have gone: "getEntry ?s' (url_i r) = None \<and> url_i r \<notin> url_i ` set (drop k ?sorted)"
      if "r \<in> set (take k ?sorted)" for r
    proof
      have "?s' (CACHE_PREFIX @ getCacheKey (url_i r)) = None"
        using that by (subst enf) (auto simp: setCacheData_def entry_key_not_index_key)
      then show "getEntry ?s' (url_i r) = None"
        by (simp add: getEntry_def getCacheData_def)
      show "url_i r \<notin> url_i ` set (drop k ?sorted)"
        using distinct_take_drop_disjoint [OF dsorted that] by auto
    qed
    have kept: "\<exists>entry. getEntry ?s' (url_i r) = Some entry \<and> size_e entry = size_i r"
      if "r \<in> set (drop k ?sorted)" for r
      using c' that unfolding consistent_def consistentWith_def idx by simp
    have order: "timestamp_i a \<le> timestamp_i b"
      if "a \<in> set (take k ?sorted)" "b \<in> set (drop k ?sorted)" for a b
      using sorted_take_drop [OF sorted_sort_key that] .
    have final: "?sum - (\<Sum>r\<leftarrow>take k ?sorted. int (size_i r)) \<le> MAX_CACHE_SIZE \<or> drop k ?sorted = []"
      using stop by auto
    from pos k idx gone kept order before final show ?thesis
      by (intro exI [of _ k] conjI ballI allI impI) blast+
  qed
  show "let updated = filter (\<lambda>r. url_i r \<noteq> u) (entries (getCacheIndex s))
                        @ [\<lparr>url_i = u, size_i = length d, timestamp_i = now'\<rparr>];
            sorted = sort_key timestamp_i updated;
            s' = cacheResource now now' u d ct s
        in ((\<Sum>r\<leftarrow>updated. int (size_i r)) \<le> MAX_CACHE_SIZE \<longrightarrow>
              getCacheIndex s' = \<lparr>totalSize = (\<Sum>r\<leftarrow>updated. int (size_i r)), entries = updated\<rparr>
            \<and> (\<forall>r\<in>set updated. \<exists>entry. getEntry s' (url_i r) = Some entry \<and> size_e entry = size_i r))
         \<and> ((\<Sum>r\<leftarrow>updated. int (size_i r)) > MAX_CACHE_SIZE \<longrightarrow>
              (\<exists>k. 0 < k \<and> k \<le> length sorted
                 \<and> getCacheIndex s' =
                     \<lparr>totalSize = (\<Sum>r\<leftarrow>updated. int (size_i r)) - (\<Sum>r\<leftarrow>take k sorted. int (size_i r)),
                      entries = drop k sorted\<rparr>
                 \<and> (\<forall>r\<in>set (take k sorted).
                       getEntry s' (url_i r) = None \<and> url_i r \<notin> url_i ` set (drop k sorted))
                 \<and> (\<forall>r\<in>set (drop k sorted).
                       \<exists>entry. getEntry s' (url_i r) = Some entry \<and> size_e entry = size_i r)
                 \<and> (\<forall>a\<in>set (take k sorted). \<forall>b\<in>set (drop k sorted). timestamp_i a \<le> timestamp_i b)
                 \<and> (\<forall>j<k. (\<Sum>r\<leftarrow>updated. int (size_i r)) - (\<Sum>r\<leftarrow>take j sorted. int (size_i r))
                           > MAX_CACHE_SIZE)
                 \<and> ((\<Sum>r\<leftarrow>updated. int (size_i r)) - (\<Sum>r\<leftarrow>take k sorted. int (size_i r))
                       \<le> MAX_CACHE_SIZE
                     \<or> drop k sorted = [])))"
    unfolding Let_def using within above by blast
qed


theorem size_limit_enforced_witness:
  "(let U = {js ''https://x/a'', js ''https://x/b''};
        s1 = cacheResource 0 0 (js ''https://x/a'') (replicate 31457280 65) (js ''text/html'') Map.empty;
        s2 = cacheResource 1 1 (js ''https://x/b'') (replicate 31457280 66) (js ''text/css'') s1
    in reached U Map.empty \<and> reached U s1 \<and> inj_on getCacheKey U
     \<and> getCacheIndex s1 =
         \<lparr>totalSize = 31457280,
          entries = [\<lparr>url_i = js ''https://x/a'', size_i = 31457280, timestamp_i = 0\<rparr>]\<rparr>
     \<and> getCacheSize s2 \<le> MAX_CACHE_SIZE
     \<and> getCacheIndex s2 =
         \<lparr>totalSize = 31457280,
          entries = [\<lparr>url_i = js ''https://x/b'', size_i = 31457280, timestamp_i = 1\<rparr>]\<rparr>
     \<and> getEntry s2 (js ''https://x/a'') = None
     \<and> (\<exists>entry. getEntry s2 (js ''https://x/b'') = Some entry \<and> size_e entry = 31457280))"
proof -
  let ?a = "js ''https://x/a''" and ?b = "js ''https://x/b''"
  let ?U = "{?a, ?b}"
  let ?ra = "\<lparr>url_i = ?a, size_i = 31457280, timestamp_i = 0\<rparr>"
  let ?rb = "\<lparr>url_i = ?b, size_i = 31457280, timestamp_i = 1\<rparr>"
  let ?s1 = "cacheResource 0 0 ?a (replicate 31457280 65) (js ''text/html'') Map.empty"
  let ?s2 = "cacheResource 1 1 ?b (replicate 31457280 66) (js ''text/css'') ?s1"
  have r0: "reached ?U Map.empty"
    by (rule reached.reached_empty) simp
  then have r1: "reached ?U ?s1"
    by (rule reached.reached_cache) simp
  have inj: "inj_on getCacheKey ?U"
    using sample_keys_differ by auto
  have ua: "inj_on getCacheKey ?U \<and> ?a \<in> ?U" and ub: "inj_on getCacheKey ?U \<and> ?b \<in> ?U"
    using inj by simp_all
  note first = size_limit_enforced [OF r0, of 0 0 ?a "replicate 31457280 65" "js ''text/html''",
      unfolded Let_def, THEN conjunct2, rule_format, OF ua]
  have idx1: "getCacheIndex ?s1 = \<lparr>totalSize = 31457280, entries = [?ra]\<rparr>"
    using first [THEN conjunct1] by (simp add: MAX_CACHE_SIZE_def)
  note second = size_limit_enforced [OF r1, of 1 1 ?b "replicate 31457280 66" "js ''text/css''",
      unfolded Let_def]
  from second have bound: "getCacheSize ?s2 \<le> MAX_CACHE_SIZE"
    by (rule conjunct1)
  have upd: "filter (\<lambda>r. url_i r \<noteq> ?b) (entries (getCacheIndex ?s1))
      @ [\<lparr>url_i = ?b, size_i = length (replicate 31457280 (66 :: jschar)), timestamp_i = 1\<rparr>]
      = [?ra, ?rb]"
    using sample_urls_differ by (simp add: idx1)
  from second [THEN conjunct2, rule_format, OF ub, THEN conjunct2, unfolded upd]
  obtain k where k: "0 < k" "k \<le> length (sort_key timestamp_i [?ra, ?rb])"
    and idx2: "getCacheIndex ?s2 =
        \<lparr>totalSize = (\<Sum>r\<leftarrow>[?ra, ?rb]. int (size_i r))
                      - (\<Sum>r\<leftarrow>take k (sort_key timestamp_i [?ra, ?rb]). int (size_i r)),
         entries = drop k (sort_key timestamp_i [?ra, ?rb])\<rparr>"
    and gone: "\<forall>r\<in>set (take k (sort_key timestamp_i [?ra, ?rb])).
        getEntry ?s2 (url_i r) = None
        \<and> url_i r \<notin> url_i ` set (drop k (sort_key timestamp_i [?ra, ?rb]))"
    and kept: "\<forall>r\<in>set (drop k (sort_key timestamp_i [?ra, ?rb])).
        \<exists>entry. getEntry ?s2 (url_i r) = Some entry \<and> size_e entry = size_i r"
    and before: "\<forall>j<k. (\<Sum>r\<leftarrow>[?ra, ?rb]. int (size_i r))
        - (\<Sum>r\<leftarrow>take j (sort_key timestamp_i [?ra, ?rb]). int (size_i r)) > MAX_CACHE_SIZE"
    by (auto simp: MAX_CACHE_SIZE_def)
  have sorted: "sort_key timestamp_i [?ra, ?rb] = [?ra, ?rb]"
    by simp
  from k have "k = 1 \<or> k = 2"
    by (auto simp: sorted)
  moreover have "k \<noteq> 2"
  proof
    assume "k = 2"
    then have "1 < k" by simp
    from before [rule_format, OF this] show False
      by (simp add: sorted MAX_CACHE_SIZE_def)
  qed
  ultimately have k1: "k = 1" by simp
  from idx2 have idx2': "getCacheIndex ?s2 = \<lparr>totalSize = 31457280, entries = [?rb]\<rparr>"
    by (simp add: k1 sorted)
  from gone have a_gone: "getEntry ?s2 ?a = None"
    by (simp add: k1 sorted)
  from kept have b_kept: "\<exists>entry. getEntry ?s2 ?b = Some entry \<and> size_e entry = 31457280"
    by (simp add: k1 sorted)
  show ?thesis
    unfolding Let_def using r0 r1 inj idx1 bound idx2' a_gone b_kept by blast
qed

text \<open>
  The claim as stated fails when keys collide. \<open>https://x/Aa\<close> and \<open>https://x/BB\<close> share
  a key; when 30 MiB are cached for the first at time 0 and for the second at time 1, the
  second call evicts the record of the first, the older one, and with it empties the slot
  that holds the entry just written for the second: the index keeps the record of
  \<open>https://x/BB\<close>, and its entry is the one deleted.
\<close>

theorem eviction_deletes_newer_entry:
  "getEntry
     (updateCacheIndex 1 (js ''https://x/BB'') 31457280
        (setCacheData (getCacheKey (js ''https://x/BB''))
           (Entry (newEntry 1 (js ''https://x/BB'') (replicate 31457280 66) (js ''text/html'')))
           (cacheResource 0 0 (js ''https://x/Aa'') (replicate 31457280 65) (js ''text/html'')
              Map.empty)))
     (js ''https://x/BB'')
     = Some (newEntry 1 (js ''https://x/BB'') (replicate 31457280 66) (js ''text/html''))
   \<and> getCacheIndex
       (cacheResource 1 1 (js ''https://x/BB'') (replicate 31457280 66) (js ''text/html'')
          (cacheResource 0 0 (js ''https://x/Aa'') (replicate 31457280 65) (js ''text/html'')
             Map.empty))
     = \<lparr>totalSize = 31457280,
        entries = [\<lparr>url_i = js ''https://x/BB'', size_i = 31457280, timestamp_i = 1\<rparr>]\<rparr>
   \<and> getEntry
       (cacheResource 1 1 (js ''https://x/BB'') (replicate 31457280 66) (js ''text/html'')
          (cacheResource 0 0 (js ''https://x/Aa'') (replicate 31457280 65) (js ''text/html'')
             Map.empty))
       (js ''https://x/BB'')
     = None"
proof -
  have le: "(0 :: int) \<le> 1" by simp
  show ?thesis
    by (simp add: colliding_writes [OF le] getEntry_set_entry getEntry_remove_entry
        colliding_keys_equal)
qed

section \<open>The reported size and the stored entries\<close>






section \<open>Expiration windows\<close>

text \<open>
  Claim C4. The entry \<open>cacheResource\<close> stores for \<open>u\<close> at clock time \<open>now\<close> has
  \<open>expiresAt = now + 86400000\<close> (24 hours) when the content type contains \<open>css\<close>,
  \<open>javascript\<close> or \<open>image/\<close>, and \<open>now + 3600000\<close> (1 hour) otherwise. When
  \<open>https://x/a\<close> is cached as \<open>text/html\<close> and \<open>https://x/b\<close> as \<open>text/css\<close> at time
  \<open>t\<close>, the statistics count two entries, and at \<open>t\<close> plus one hour and one millisecond
  the read of the first returns \<open>null\<close> while the read of the second, before or after it,
  returns its data.
\<close>

theorem expiration_by_content_type:
  "(getEntry (cacheResource now now' u d ct s) u = Some entry \<longrightarrow>
      entry = \<lparr>url = u, data = d, timestamp = now,
               expiresAt = now + (if includes_js ct (js ''css'') \<or> includes_js ct (js ''javascript'')
                                     \<or> includes_js ct (js ''image/'')
                                  then 86400000 else 3600000),
               contentType = ct, size_e = length d\<rparr>)
   \<and> (let s2 = cacheResource t t (js ''https://x/b'') (replicate 10 66) (js ''text/css'')
                 (cacheResource t t (js ''https://x/a'') (replicate 10 65) (js ''text/html'') Map.empty);
           later = t + 3600000 + 1
       in entryCount (getCacheStats s2) = 2
        \<and> fst (getCachedResource later (js ''https://x/a'') s2) = None
        \<and> fst (getCachedResource later (js ''https://x/b'') s2) = Some (replicate 10 66)
        \<and> fst (getCachedResource later (js ''https://x/b'')
                 (snd (getCachedResource later (js ''https://x/a'') s2))) = Some (replicate 10 66))"
proof -
  let ?a = "js ''https://x/a''" and ?b = "js ''https://x/b''"
  let ?ea = "newEntry t ?a (replicate 10 65) (js ''text/html'')"
  let ?eb = "newEntry t ?b (replicate 10 66) (js ''text/css'')"
  let ?s2 = "cacheResource t t ?b (replicate 10 66) (js ''text/css'')
                 (cacheResource t t ?a (replicate 10 65) (js ''text/html'') Map.empty)"
  have general: "entry = \<lparr>url = u, data = d, timestamp = now,
               expiresAt = now + (if includes_js ct (js ''css'') \<or> includes_js ct (js ''javascript'')
                                     \<or> includes_js ct (js ''image/'')
                                  then 86400000 else 3600000),
               contentType = ct, size_e = length d\<rparr>"
    if "getEntry (cacheResource now now' u d ct s) u = Some entry"
    using that getEntry_cacheResource [of now now' u d ct s]
    by (auto simp: newEntry_def getExpirationTime_def STATIC_RESOURCE_EXPIRATION_def
        DEFAULT_EXPIRATION_def)
  have count: "entryCount (getCacheStats ?s2) = 2"
    by (simp add: getCacheStats_def Let_def two_writes(1))
  have a: "getCachedResource (t + 3600000 + 1) ?a ?s2 = (None, removeCachedResource ?a ?s2)"
    by (simp add: getCachedResource_def two_writes(2) newEntry_def expiration_html)
  have b: "fst (getCachedResource (t + 3600000 + 1) ?b ?s2) = Some (replicate 10 66)"
    by (simp add: getCachedResource_def two_writes(3) newEntry_def expiration_css)
  have "getEntry (removeCachedResource ?a ?s2) ?b = Some ?eb"
    using sample_keys_differ
    by (simp add: removeCachedResource_def two_writes(2,3) getEntry_remove_entry)
  then have b': "fst (getCachedResource (t + 3600000 + 1) ?b (removeCachedResource ?a ?s2))
      = Some (replicate 10 66)"
    by (simp add: getCachedResource_def newEntry_def expiration_css)
  from general count a b b' show ?thesis
    by (simp add: Let_def)
qed

theorem expiration_by_content_type_witness:
  "getEntry (cacheResource 5 6 (js ''https://x/a'') (replicate 10 65) (js ''image/png'') Map.empty)
     (js ''https://x/a'')
   = Some \<lparr>url = js ''https://x/a'', data = replicate 10 65, timestamp = 5,
           expiresAt = 86400005, contentType = js ''image/png'', size_e = 10\<rparr>"
proof -
  let ?a = "js ''https://x/a''"
  have s: "cacheResource 5 6 ?a (replicate 10 65) (js ''image/png'') Map.empty =
      setCacheData CACHE_INDEX_KEY
             (Index \<lparr>totalSize = 10, entries = [\<lparr>url_i = ?a, size_i = 10, timestamp_i = 6\<rparr>]\<rparr>)
             (setCacheData (getCacheKey ?a)
                (Entry (newEntry 5 ?a (replicate 10 65) (js ''image/png''))) Map.empty)"
    by (subst cacheResource_first) (simp_all add: MAX_CACHE_SIZE_def)
  have stored: "getEntry (cacheResource 5 6 ?a (replicate 10 65) (js ''image/png'') Map.empty) ?a
      = Some (newEntry 5 ?a (replicate 10 65) (js ''image/png''))"
    by (simp add: s getEntry_set_entry)
  have img: "includes_js (js ''image/png'') (js ''image/'')"
    by (simp add: js_def)
  from expiration_by_content_type [of 5 6 ?a "replicate 10 65" "js ''image/png''" Map.empty
      "newEntry 5 ?a (replicate 10 65) (js ''image/png'')" 0] stored img
  show ?thesis
    by simp
qed

section \<open>Lazy expiry on read\<close>

text \<open>
  Claim C5. When the store holds an entry for \<open>u\<close> and the clock is past its
  \<open>expiresAt\<close>, \<open>getCachedResource\<close> returns \<open>null\<close> and leaves a store without the
  entry and without an index record for \<open>u\<close>; \<open>getCacheStats\<close> then counts one record
  less and a total smaller by the entry's size (when the index had a record for \<open>u\<close>).
  The index holds at most one record per URL, as it does in every store reached from an
  empty cache (lemma \<open>reachable_distinct_urls\<close>).
\<close>

theorem getCachedResource_expired:
  assumes "getCacheData s (getCacheKey u) = Some (Entry entry)"
    and "now > expiresAt entry"
    and "distinct (map url_i (entries (getCacheIndex s)))"
  shows "fst (getCachedResource now u s) = None
       \<and> getCacheData (snd (getCachedResource now u s)) (getCacheKey u) = None
       \<and> u \<notin> url_i ` set (entries (getCacheIndex (snd (getCachedResource now u s))))
       \<and> entries (getCacheIndex (snd (getCachedResource now u s))) =
           filter (\<lambda>r. url_i r \<noteq> u) (entries (getCacheIndex s))
       \<and> (u \<in> url_i ` set (entries (getCacheIndex s)) \<longrightarrow>
            entryCount (getCacheStats (snd (getCachedResource now u s)))
              = entryCount (getCacheStats s) - 1
          \<and> totalSize_s (getCacheStats (snd (getCachedResource now u s)))
              = totalSize_s (getCacheStats s) - int (size_e entry))"
proof -
  let ?idx = "getCacheIndex s"
  let ?s' = "removeFromCacheIndex u (size_e entry) (removeCacheData (getCacheKey u) s)"
  have e: "getEntry s u = Some entry"
    using assms(1) by (simp add: getEntry_Some_iff)
  have res: "getCachedResource now u s = (None, ?s')"
    using e assms(2) by (simp add: getCachedResource_def removeCachedResource_def)
  have gone: "getCacheData ?s' (getCacheKey u) = None"
    by (simp add: removeFromCacheIndex_def Let_def store_simps split: option.splits)
  show ?thesis
  proof (cases "findIndex (\<lambda>r. url_i r = u) (entries ?idx)")
    case None
    then have idx': "getCacheIndex ?s' = ?idx"
      by (simp add: getCacheIndex_removeFromCacheIndex)
    from None have notin: "u \<notin> url_i ` set (entries ?idx)"
      by (simp add: findIndex_None_notin)
    with None show ?thesis
      by (simp add: res gone idx' filter_no_match)
  next
    case (Some i)
    then have idx': "getCacheIndex ?s' =
        \<lparr>totalSize = totalSize ?idx - int (size_e entry), entries = splice1 i (entries ?idx)\<rparr>"
      by (simp add: getCacheIndex_removeFromCacheIndex)
    have i: "i < length (entries ?idx)"
      using findIndex_Some [OF Some] by simp
    have spl: "splice1 i (entries ?idx) = filter (\<lambda>r. url_i r \<noteq> u) (entries ?idx)"
      using splice1_first_match [OF assms(3) Some] .
    have len: "length (filter (\<lambda>r. url_i r \<noteq> u) (entries ?idx)) = length (entries ?idx) - 1"
      using length_splice1 [OF i] spl by simp
    have notin: "u \<notin> url_i ` set (filter (\<lambda>r. url_i r \<noteq> u) (entries ?idx))"
      by auto
    show ?thesis
      using notin by (simp add: res gone idx' spl len getCacheStats_def Let_def)
  qed
qed

theorem getCachedResource_expired_witness:
  "getCacheData
     (cacheResource 0 0 (js ''https://x/a'') (replicate 10 65) (js ''text/html'') Map.empty)
     (getCacheKey (js ''https://x/a''))
     = Some (Entry (newEntry 0 (js ''https://x/a'') (replicate 10 65) (js ''text/html'')))
   \<and> 3600001 > expiresAt (newEntry 0 (js ''https://x/a'') (replicate 10 65) (js ''text/html''))
   \<and> entryCount (getCacheStats
        (cacheResource 0 0 (js ''https://x/a'') (replicate 10 65) (js ''text/html'') Map.empty)) = 1
   \<and> totalSize_s (getCacheStats
        (cacheResource 0 0 (js ''https://x/a'') (replicate 10 65) (js ''text/html'') Map.empty)) = 10
   \<and> fst (getCachedResource 3600001 (js ''https://x/a'')
        (cacheResource 0 0 (js ''https://x/a'') (replicate 10 65) (js ''text/html'') Map.empty)) = None
   \<and> entryCount (getCacheStats (snd (getCachedResource 3600001 (js ''https://x/a'')
        (cacheResource 0 0 (js ''https://x/a'') (replicate 10 65) (js ''text/html'') Map.empty)))) = 0
   \<and> totalSize_s (getCacheStats (snd (getCachedResource 3600001 (js ''https://x/a'')
        (cacheResource 0 0 (js ''https://x/a'') (replicate 10 65) (js ''text/html'') Map.empty)))) = 0"
proof -
  let ?a = "js ''https://x/a''"
  let ?e = "newEntry 0 ?a (replicate 10 65) (js ''text/html'')"
  let ?s = "cacheResource 0 0 ?a (replicate 10 65) (js ''text/html'') Map.empty"
  have s: "?s = setCacheData CACHE_INDEX_KEY
             (Index \<lparr>totalSize = 10, entries = [\<lparr>url_i = ?a, size_i = 10, timestamp_i = 0\<rparr>]\<rparr>)
             (setCacheData (getCacheKey ?a) (Entry ?e) Map.empty)"
    by (subst cacheResource_first) (simp_all add: MAX_CACHE_SIZE_def)
  have stored: "getCacheData ?s (getCacheKey ?a) = Some (Entry ?e)"
    by (simp add: s store_simps)
  have expired: "3600001 > expiresAt ?e"
    by (simp add: newEntry_def getExpirationTime_def DEFAULT_EXPIRATION_def js_def)
  have idx: "getCacheIndex ?s =
      \<lparr>totalSize = 10, entries = [\<lparr>url_i = ?a, size_i = 10, timestamp_i = 0\<rparr>]\<rparr>"
    by (simp add: s)
  have d: "distinct (map url_i (entries (getCacheIndex ?s)))"
    by (simp add: idx)
  have size: "size_e ?e = 10"
    by (simp add: newEntry_def)
  from getCachedResource_expired [OF stored expired d] stored expired show ?thesis
    by (simp add: idx size getCacheStats_def Let_def)
qed

section \<open>Storage keys\<close>

text \<open>
  Claim C6, as amended. Two URLs get the same storage key exactly when their 32-bit
  hashes have the same absolute value. The key is a function of a 32-bit hash, so it is
  not injective on URLs.
\<close>

theorem getCacheKey_eq_iff:
  "getCacheKey u1 = getCacheKey u2 \<longleftrightarrow> \<bar>sint (hashLoop 0 u1)\<bar> = \<bar>sint (hashLoop 0 u2)\<bar>"
proof
  assume "getCacheKey u1 = getCacheKey u2"
  then have "nat \<bar>sint (hashLoop 0 u1)\<bar> = nat \<bar>sint (hashLoop 0 u2)\<bar>"
    by (simp add: getCacheKey_def hashUrl_def toString_inj)
  then show "\<bar>sint (hashLoop 0 u1)\<bar> = \<bar>sint (hashLoop 0 u2)\<bar>"
    by simp
next
  assume "\<bar>sint (hashLoop 0 u1)\<bar> = \<bar>sint (hashLoop 0 u2)\<bar>"
  then show "getCacheKey u1 = getCacheKey u2"
    by (simp add: getCacheKey_def hashUrl_def)
qed

theorem getCacheKey_eq_iff_witness:
  "getCacheKey (js ''https://x/a'') \<noteq> getCacheKey (js ''https://x/b'')
   \<and> sint (hashLoop 0 (js ''https://x/a'')) = - 121047205
   \<and> sint (hashLoop 0 (js ''https://x/b'')) = - 121047204"
  using getCacheKey_eq_iff [of "js ''https://x/a''" "js ''https://x/b''"]
  by (simp add: js_def)

text \<open>
  The claim as stated fails: the distinct URLs \<open>https://x/Aa\<close> and \<open>https://x/BB\<close>
  have the same key.
\<close>

theorem getCacheKey_collision:
  "js ''https://x/Aa'' \<noteq> js ''https://x/BB''
   \<and> getCacheKey (js ''https://x/Aa'') = getCacheKey (js ''https://x/BB'')"
  by (simp add: js_def getCacheKey_def hashUrl_def)

section \<open>Going offline\<close>

lemma cacheReads_handleOfflineLoad:
  "cacheReads (handleOfflineLoad now st) = cacheReads st @ [PORTFOLIO_URL]"
  by (simp add: handleOfflineLoad_def Let_def split: prod.splits option.splits)

lemma isOnline_handleOfflineLoad: "isOnline (handleOfflineLoad now st) = isOnline st"
  by (simp add: handleOfflineLoad_def Let_def split: prod.splits option.splits)

lemma showOfflineMessage_handleOfflineLoad: "showOfflineMessage (handleOfflineLoad now st)"
  by (simp add: handleOfflineLoad_def Let_def split: prod.splits option.splits)

lemma isOnline_checkInitialConnectivity:
  "isOnline (checkInitialConnectivity fetched now st) = NetworkService_isOnline fetched"
  by (simp add: checkInitialConnectivity_def Let_def isOnline_handleOfflineLoad)

lemma cacheReads_checkInitialConnectivity:
  "cacheReads (checkInitialConnectivity fetched now st) =
     (if NetworkService_isOnline fetched then cacheReads st else cacheReads st @ [PORTFOLIO_URL])"
  by (simp add: checkInitialConnectivity_def Let_def cacheReads_handleOfflineLoad)

lemma showOfflineMessage_checkInitialConnectivity:
  "\<not> NetworkService_isOnline fetched \<Longrightarrow> showOfflineMessage (checkInitialConnectivity fetched now st)"
  by (simp add: checkInitialConnectivity_def Let_def showOfflineMessage_handleOfflineLoad)

lemma isOnline_networkListener:
  "isOnline (networkListener wasOnline networkState st) = NetworkService_isOnline networkState"
  by (simp add: networkListener_def NetworkService_isOnline_def Let_def)

lemma cacheReads_networkListener:
  "cacheReads (networkListener wasOnline networkState st) = cacheReads st"
  by (simp add: networkListener_def Let_def)

lemma store_networkListener: "store (networkListener wasOnline networkState st) = store st"
  by (simp add: networkListener_def Let_def)

lemma networkListener_same_state:
  assumes "isOnline st = NetworkService_isOnline networkState"
    and "wasOnline = NetworkService_isOnline networkState"
  shows "networkListener wasOnline networkState st = st"
  using assms by (auto simp add: networkListener_def NetworkService_isOnline_def Let_def)


lemma store_handleOfflineLoad_empty:
  "getEntry (store st) PORTFOLIO_URL = None \<Longrightarrow> store (handleOfflineLoad now st) = store st"
  by (simp add: handleOfflineLoad_def getCachedResource_def Let_def)

lemma screen_render [simp]: "screen (render c) = screen c"
  by (simp add: render_def runEffect_def)

lemma listenerWasOnline_render [simp]: "listenerWasOnline (render c) = isOnline (screen c)"
  by (auto simp: render_def runEffect_def)

lemma checksInFlight_render:
  "checksInFlight (render c) =
     (if isOnline (screen c) \<noteq> listenerWasOnline c then Suc (checksInFlight c) else checksInFlight c)"
  by (simp add: render_def runEffect_def)

lemma render_same: "isOnline (screen c) = listenerWasOnline c \<Longrightarrow> render c = c"
  by (simp add: render_def)

text \<open>
  The reads of one event: a callback makes none; a check that completes makes one, for
  the portfolio URL, when the state it fetched is not online.
\<close>

lemma cacheReads_step:
  "cacheReads (screen (step e c)) =
     cacheReads (screen c)
       @ (case e of
            NetworkCallback networkState \<Rightarrow> []
          | CheckResolves fetched now \<Rightarrow>
              if 0 < checksInFlight c \<and> \<not> NetworkService_isOnline fetched then [PORTFOLIO_URL]
              else [])"
  by (cases e) (simp_all add: cacheReads_networkListener cacheReads_checkInitialConnectivity)

text \<open>
  Claim C7, as amended. Take the component online, with the listener subscribed in that
  state (as it is when mounted, and after every event). A callback that reports a
  not-online state sets \<open>isOnline\<close> to false and shows the offline message; the callback
  reads nothing from the cache, but \<open>isOnline\<close> changed, so the effect runs again and
  starts a connectivity check (\<open>c1\<close>). When a check completes on the same not-online
  state, it calls \<open>getCachedResource\<close> once, for the portfolio URL (\<open>c2\<close>). A second
  callback that reports the same not-online state, before or after that, changes nothing:
  no read, no reload, no further check. In general a callback never reads the cache, and
  every check that completes on a not-online state reads it once.
\<close>

theorem offline_transition_reads_cache_once:
  assumes "isOnline (screen c)" and "listenerWasOnline c"
    and "\<not> (isConnected networkState \<and> isInternetReachable networkState \<noteq> Some False)"
  shows "(let c1 = step (NetworkCallback networkState) c;
              c2 = step (CheckResolves networkState now) c1
          in \<not> isOnline (screen c1) \<and> showOfflineMessage (screen c1)
           \<and> cacheReads (screen c1) = cacheReads (screen c)
           \<and> checksInFlight c1 = Suc (checksInFlight c)
           \<and> \<not> isOnline (screen c2) \<and> showOfflineMessage (screen c2)
           \<and> cacheReads (screen c2) = cacheReads (screen c) @ [PORTFOLIO_URL]
           \<and> checksInFlight c2 = checksInFlight c
           \<and> step (NetworkCallback networkState) c1 = c1
           \<and> step (NetworkCallback networkState) c2 = c2)
       \<and> cacheReads (screen (step (NetworkCallback networkState') c')) = cacheReads (screen c')
       \<and> (0 < checksInFlight c' \<and> \<not> NetworkService_isOnline fetched \<longrightarrow>
            cacheReads (screen (step (CheckResolves fetched now') c'))
              = cacheReads (screen c') @ [PORTFOLIO_URL])"
proof -
  let ?c1 = "step (NetworkCallback networkState) c"
  let ?c2 = "step (CheckResolves networkState now) ?c1"
  have offline: "\<not> NetworkService_isOnline networkState"
    using assms(3) by (simp add: NetworkService_isOnline_def)
  have off1: "\<not> isOnline (screen ?c1)"
    using offline by (simp add: isOnline_networkListener)
  have msg1: "showOfflineMessage (screen ?c1)"
    using assms by (simp add: networkListener_def Let_def)
  have reads1: "cacheReads (screen ?c1) = cacheReads (screen c)"
    by (simp add: cacheReads_networkListener)
  have checks1: "checksInFlight ?c1 = Suc (checksInFlight c)"
    using assms(2) offline by (simp add: checksInFlight_render isOnline_networkListener)
  have listener1: "\<not> listenerWasOnline ?c1"
    using offline by (simp add: isOnline_networkListener)
  have off2: "\<not> isOnline (screen ?c2)"
    using offline checks1 by (simp add: isOnline_checkInitialConnectivity)
  have msg2: "showOfflineMessage (screen ?c2)"
    using offline checks1 by (simp add: showOfflineMessage_checkInitialConnectivity)
  have reads2: "cacheReads (screen ?c2) = cacheReads (screen c) @ [PORTFOLIO_URL]"
    using offline checks1 reads1 by (simp only: cacheReads_step) simp
  have checks2: "checksInFlight ?c2 = checksInFlight c"
    using offline checks1 listener1
    by (simp add: checksInFlight_render isOnline_checkInitialConnectivity)
  have listener2: "\<not> listenerWasOnline ?c2"
    using offline checks1 by (simp add: isOnline_checkInitialConnectivity)
  have same: "step (NetworkCallback networkState) x = x"
    if "\<not> isOnline (screen x)" "\<not> listenerWasOnline x" for x
  proof -
    have "networkListener (listenerWasOnline x) networkState (screen x) = screen x"
      using that offline by (intro networkListener_same_state) simp_all
    with that show ?thesis
      by (simp add: render_same)
  qed
  have again1: "step (NetworkCallback networkState) ?c1 = ?c1"
    using off1 listener1 by (rule same)
  have again2: "step (NetworkCallback networkState) ?c2 = ?c2"
    using off2 listener2 by (rule same)
  have callback: "cacheReads (screen (step (NetworkCallback networkState') c')) = cacheReads (screen c')"
    by (simp add: cacheReads_networkListener)
  have check: "cacheReads (screen (step (CheckResolves fetched now') c'))
      = cacheReads (screen c') @ [PORTFOLIO_URL]"
    if "0 < checksInFlight c' \<and> \<not> NetworkService_isOnline fetched"
    using that by (simp only: cacheReads_step) simp
  show ?thesis
    unfolding Let_def
    using off1 msg1 reads1 checks1 off2 msg2 reads2 checks2 again1 again2 callback check
    by blast
qed

theorem offline_transition_reads_cache_once_witness:
  "(let c = \<lparr>screen = \<lparr>isOnline = True, showOfflineMessage = False,
                          webViewSource = Uri PORTFOLIO_URL,
                          store = cacheResource 0 0 PORTFOLIO_URL (js ''<html></html>'')
                                    (js ''text/html'') Map.empty,
                          cacheReads = []\<rparr>,
                listenerWasOnline = True, checksInFlight = 0\<rparr>;
        networkState = \<lparr>isConnected = False, isInternetReachable = Some False,
                         netType = js ''none''\<rparr>;
        c1 = step (NetworkCallback networkState) c;
        c2 = step (CheckResolves networkState 1000) c1
    in isOnline (screen c) \<and> listenerWasOnline c
     \<and> \<not> (isConnected networkState \<and> isInternetReachable networkState \<noteq> Some False)
     \<and> 0 < checksInFlight c1 \<and> \<not> NetworkService_isOnline networkState
     \<and> \<not> isOnline (screen c1) \<and> cacheReads (screen c1) = []
     \<and> \<not> isOnline (screen c2) \<and> cacheReads (screen c2) = [PORTFOLIO_URL]
     \<and> checksInFlight c2 = 0
     \<and> step (NetworkCallback networkState) c2 = c2)"
proof -
  let ?c = "\<lparr>screen = \<lparr>isOnline = True, showOfflineMessage = False,
                          webViewSource = Uri PORTFOLIO_URL,
                          store = cacheResource 0 0 PORTFOLIO_URL (js ''<html></html>'')
                                    (js ''text/html'') Map.empty,
                          cacheReads = []\<rparr>,
                listenerWasOnline = True, checksInFlight = 0\<rparr>"
  let ?ns = "\<lparr>isConnected = False, isInternetReachable = Some False, netType = js ''none''\<rparr>"
  let ?c1 = "step (NetworkCallback ?ns) ?c"
  let ?c2 = "step (CheckResolves ?ns 1000) ?c1"
  have on: "isOnline (screen ?c)" and sub: "listenerWasOnline ?c"
    by simp_all
  have off: "\<not> (isConnected ?ns \<and> isInternetReachable ?ns \<noteq> Some False)"
    by simp
  have off': "\<not> NetworkService_isOnline ?ns"
    by (simp add: NetworkService_isOnline_def)
  note main = offline_transition_reads_cache_once [OF on sub off, of 1000 ?ns ?c1 ?ns 1000,
      unfolded Let_def]
  from main have c1: "\<not> isOnline (screen ?c1)" "cacheReads (screen ?c1) = cacheReads (screen ?c)"
    "checksInFlight ?c1 = Suc (checksInFlight ?c)"
    and c2: "\<not> isOnline (screen ?c2)" "cacheReads (screen ?c2) = cacheReads (screen ?c) @ [PORTFOLIO_URL]"
    "checksInFlight ?c2 = checksInFlight ?c" "step (NetworkCallback ?ns) ?c2 = ?c2"
    by blast+
  from c1(3) have pending: "0 < checksInFlight ?c1"
    by simp
  from c1(2) have r1: "cacheReads (screen ?c1) = []"
    by simp
  from c2(2) have r2: "cacheReads (screen ?c2) = [PORTFOLIO_URL]"
    by simp
  from c2(3) have n2: "checksInFlight ?c2 = 0"
    by simp
  show ?thesis
    unfolding Let_def using on sub off pending off' c1(1) r1 c2(1) r2 n2 c2(4) by blast
qed

text \<open>
  The claim as stated fails on the mounted component, which is online and has the check
  of its first effect in flight. After one callback that reports a not-online state, the
  check of the first effect and the check of the effect that ran again both complete:
  on a not-online state each reads the cache, which makes two reads; on an online state
  neither does, which makes none, and the component is online again.
\<close>

theorem offline_callback_two_reads_or_none:
  "isOnline (screen (mounted Map.empty))
   \<and> cacheReads (screen (run
         [NetworkCallback \<lparr>isConnected = False, isInternetReachable = Some False, netType = js ''none''\<rparr>,
          CheckResolves \<lparr>isConnected = False, isInternetReachable = Some False, netType = js ''none''\<rparr> 1,
          CheckResolves \<lparr>isConnected = False, isInternetReachable = Some False, netType = js ''none''\<rparr> 2]
         (mounted Map.empty)))
       = [PORTFOLIO_URL, PORTFOLIO_URL]
   \<and> cacheReads (screen (run
         [NetworkCallback \<lparr>isConnected = False, isInternetReachable = Some False, netType = js ''none''\<rparr>,
          CheckResolves \<lparr>isConnected = True, isInternetReachable = Some True, netType = js ''wifi''\<rparr> 1,
          CheckResolves \<lparr>isConnected = True, isInternetReachable = Some True, netType = js ''wifi''\<rparr> 2]
         (mounted Map.empty)))
       = []
   \<and> isOnline (screen (run
         [NetworkCallback \<lparr>isConnected = False, isInternetReachable = Some False, netType = js ''none''\<rparr>,
          CheckResolves \<lparr>isConnected = True, isInternetReachable = Some True, netType = js ''wifi''\<rparr> 1,
          CheckResolves \<lparr>isConnected = True, isInternetReachable = Some True, netType = js ''wifi''\<rparr> 2]
         (mounted Map.empty)))"
  by (simp add: mounted_def runEffect_def render_def networkListener_def
      checkInitialConnectivity_def NetworkService_isOnline_def handleOfflineLoad_def
      getCachedResource_def Let_def)

section \<open>Statistics of an empty cache\<close>

lemma Math_min_not_NaN: "Math_min xs \<noteq> NaN"
  by (induction xs) (auto split: jsnumber.splits)

lemma Math_max_not_NaN: "Math_max xs \<noteq> NaN"
  by (induction xs) (auto split: jsnumber.splits)

text \<open>
  Claim C8, as amended. When the index has no record, \<open>getCacheStats\<close> returns entry
  count 0, \<open>Infinity\<close> as oldest and \<open>-Infinity\<close> as newest timestamp, and as total size
  the total the index stores. That total is 0 when no index is stored, and in every
  store reached from an empty cache on URLs whose storage keys do not collide. On no
  store is either timestamp \<open>NaN\<close>.
\<close>

theorem getCacheStats_empty:
  "(getCacheData s CACHE_INDEX_KEY = None \<longrightarrow>
      getCacheStats s =
        \<lparr>totalSize_s = 0, entryCount = 0, oldestEntry = PosInfinity, newestEntry = NegInfinity\<rparr>)
   \<and> (entries (getCacheIndex s) = [] \<longrightarrow>
        getCacheStats s =
          \<lparr>totalSize_s = totalSize (getCacheIndex s), entryCount = 0,
           oldestEntry = PosInfinity, newestEntry = NegInfinity\<rparr>)
   \<and> (reached U s \<and> inj_on getCacheKey U \<and> entries (getCacheIndex s) = [] \<longrightarrow>
        getCacheStats s =
          \<lparr>totalSize_s = 0, entryCount = 0, oldestEntry = PosInfinity, newestEntry = NegInfinity\<rparr>)
   \<and> oldestEntry (getCacheStats s) \<noteq> NaN \<and> newestEntry (getCacheStats s) \<noteq> NaN"
proof (intro conjI impI)
  assume "getCacheData s CACHE_INDEX_KEY = None"
  then show "getCacheStats s =
      \<lparr>totalSize_s = 0, entryCount = 0, oldestEntry = PosInfinity, newestEntry = NegInfinity\<rparr>"
    by (simp add: getCacheStats_def getCacheIndex_def Let_def)
next
  assume "entries (getCacheIndex s) = []"
  then show "getCacheStats s =
      \<lparr>totalSize_s = totalSize (getCacheIndex s), entryCount = 0,
       oldestEntry = PosInfinity, newestEntry = NegInfinity\<rparr>"
    by (simp add: getCacheStats_def Let_def)
next
  assume a: "reached U s \<and> inj_on getCacheKey U \<and> entries (getCacheIndex s) = []"
  then obtain t where "consistent U t s"
    using reached_consistent by blast
  with a have "totalSize (getCacheIndex s) = 0"
    by (simp add: consistent_def consistentWith_def)
  with a show "getCacheStats s =
      \<lparr>totalSize_s = 0, entryCount = 0, oldestEntry = PosInfinity, newestEntry = NegInfinity\<rparr>"
    by (simp add: getCacheStats_def Let_def)
next
  show "oldestEntry (getCacheStats s) \<noteq> NaN"
    by (simp add: getCacheStats_def Let_def Math_min_not_NaN)
  show "newestEntry (getCacheStats s) \<noteq> NaN"
    by (simp add: getCacheStats_def Let_def Math_max_not_NaN)
qed

theorem getCacheStats_empty_witness:
  "getCacheData Map.empty CACHE_INDEX_KEY = None
   \<and> getCacheStats Map.empty =
       \<lparr>totalSize_s = 0, entryCount = 0, oldestEntry = PosInfinity, newestEntry = NegInfinity\<rparr>
   \<and> reached {js ''https://x/a''}
       (removeCachedResource (js ''https://x/a'')
          (cacheResource 0 0 (js ''https://x/a'') (replicate 10 65) (js ''text/html'') Map.empty))
   \<and> inj_on getCacheKey {js ''https://x/a''}
   \<and> getCacheData
       (removeCachedResource (js ''https://x/a'')
          (cacheResource 0 0 (js ''https://x/a'') (replicate 10 65) (js ''text/html'') Map.empty))
       CACHE_INDEX_KEY \<noteq> None
   \<and> entries (getCacheIndex
       (removeCachedResource (js ''https://x/a'')
          (cacheResource 0 0 (js ''https://x/a'') (replicate 10 65) (js ''text/html'') Map.empty)))
     = []
   \<and> getCacheStats
       (removeCachedResource (js ''https://x/a'')
          (cacheResource 0 0 (js ''https://x/a'') (replicate 10 65) (js ''text/html'') Map.empty))
     = \<lparr>totalSize_s = 0, entryCount = 0, oldestEntry = PosInfinity, newestEntry = NegInfinity\<rparr>"
proof -
  let ?a = "js ''https://x/a''"
  let ?e = "newEntry 0 ?a (replicate 10 65) (js ''text/html'')"
  let ?s0 = "cacheResource 0 0 ?a (replicate 10 65) (js ''text/html'') Map.empty"
  let ?s1 = "removeCachedResource ?a ?s0"
  have absent: "getCacheData Map.empty CACHE_INDEX_KEY = None"
    by simp
  have "reached {?a} Map.empty"
    by (rule reached.reached_empty) simp
  then have "reached {?a} ?s0"
    by (rule reached.reached_cache) simp
  then have reach: "reached {?a} ?s1"
    by (rule reached.reached_remove) simp
  have inj: "inj_on getCacheKey {?a}"
    by simp
  have s0: "?s0 = setCacheData CACHE_INDEX_KEY
             (Index \<lparr>totalSize = 10, entries = [\<lparr>url_i = ?a, size_i = 10, timestamp_i = 0\<rparr>]\<rparr>)
             (setCacheData (getCacheKey ?a) (Entry ?e) Map.empty)"
    by (subst cacheResource_first) (simp_all add: MAX_CACHE_SIZE_def)
  have e0: "getEntry ?s0 ?a = Some ?e"
    by (simp add: s0 getEntry_set_entry)
  have idx0: "getCacheIndex ?s0 =
      \<lparr>totalSize = 10, entries = [\<lparr>url_i = ?a, size_i = 10, timestamp_i = 0\<rparr>]\<rparr>"
    by (simp add: s0)
  have stored: "getCacheData ?s1 CACHE_INDEX_KEY = Some (Index \<lparr>totalSize = 0, entries = []\<rparr>)"
    by (simp add: removeCachedResource_present [OF e0] removeFromCacheIndex_def Let_def idx0
        splice1_def newEntry_def store_simps)
  then have present: "getCacheData ?s1 CACHE_INDEX_KEY \<noteq> None"
    and none: "entries (getCacheIndex ?s1) = []"
    by (simp_all add: getCacheIndex_def)
  from getCacheStats_empty [of Map.empty "{?a}"] absent
  have first: "getCacheStats Map.empty =
      \<lparr>totalSize_s = 0, entryCount = 0, oldestEntry = PosInfinity, newestEntry = NegInfinity\<rparr>"
    by blast
  from getCacheStats_empty [of ?s1 "{?a}"] reach inj none
  have second: "getCacheStats ?s1 =
      \<lparr>totalSize_s = 0, entryCount = 0, oldestEntry = PosInfinity, newestEntry = NegInfinity\<rparr>"
    by blast
  from absent first reach inj present none second show ?thesis
    by blast
qed

text \<open>
  The claim as stated fails when keys collide: after the writes and removals of
  \<open>colliding_remove_both\<close>, on a cache that started empty, the index has no record
  and \<open>getCacheStats\<close> reports a total size of 3.
\<close>

theorem getCacheStats_empty_total_not_zero:
  "getCacheStats
     (removeCachedResource (js ''https://x/BB'')
       (cacheResource 0 0 (js ''https://x/BB'') [] (js ''text/html'')
          (removeCachedResource (js ''https://x/Aa'')
             (cacheResource 0 0 (js ''https://x/BB'') (replicate 2 66) (js ''text/html'')
                (cacheResource 0 0 (js ''https://x/Aa'') (replicate 5 65) (js ''text/html'')
                   Map.empty)))))
   = \<lparr>totalSize_s = 3, entryCount = 0, oldestEntry = PosInfinity, newestEntry = NegInfinity\<rparr>"
  by (simp add: getCacheStats_def Let_def colliding_remove_both(1))

section \<open>Clearing the cache\<close>

text \<open>
  Claim C9. After \<open>clearCache\<close>, \<open>getCachedResource\<close> returns \<open>null\<close> for every URL,
  \<open>getCacheSize\<close> is 0, and every key of the store that does not start with the cache
  prefix holds what it held before.
\<close>

theorem clearCache_empties_and_frames:
  "fst (getCachedResource now u (clearCache s)) = None
   \<and> getCacheSize (clearCache s) = 0
   \<and> (\<forall>key. \<not> prefix CACHE_PREFIX key \<longrightarrow> clearCache s key = s key)"
proof -
  show ?thesis
    by (simp add: getCachedResource_def getCacheSize_def clearCache_frame)
qed

theorem clearCache_empties_and_frames_witness:
  "\<not> prefix CACHE_PREFIX FIRST_TIME_USER_KEY
   \<and> clearCache (cacheResource 0 0 (js ''https://x/a'') (replicate 10 65) (js ''text/html'')
        (setFirstTimeUser False Map.empty)) FIRST_TIME_USER_KEY = Some (Raw (js ''false''))
   \<and> fst (getCachedResource 0 (js ''https://x/a'')
        (cacheResource 0 0 (js ''https://x/a'') (replicate 10 65) (js ''text/html'')
          (setFirstTimeUser False Map.empty))) = Some (replicate 10 65)
   \<and> fst (getCachedResource 0 (js ''https://x/a'')
        (clearCache (cacheResource 0 0 (js ''https://x/a'') (replicate 10 65) (js ''text/html'')
          (setFirstTimeUser False Map.empty)))) = None
   \<and> getCacheSize
        (clearCache (cacheResource 0 0 (js ''https://x/a'') (replicate 10 65) (js ''text/html'')
          (setFirstTimeUser False Map.empty))) = 0"
proof -
  let ?s = "cacheResource 0 0 (js ''https://x/a'') (replicate 10 65) (js ''text/html'')
        (setFirstTimeUser False Map.empty)"
  have s: "?s = setCacheData CACHE_INDEX_KEY
             (Index \<lparr>totalSize = 10,
                     entries = [\<lparr>url_i = js ''https://x/a'', size_i = 10, timestamp_i = 0\<rparr>]\<rparr>)
             (setCacheData (getCacheKey (js ''https://x/a''))
                (Entry (newEntry 0 (js ''https://x/a'') (replicate 10 65) (js ''text/html'')))
                (setFirstTimeUser False Map.empty))"
    by (subst cacheResource_first) (simp_all add: MAX_CACHE_SIZE_def)
  have flag: "?s FIRST_TIME_USER_KEY = Some (Raw (js ''false''))"
    by (simp add: cacheResource_frame first_time_key_no_prefix setFirstTimeUser_def)
  have before: "fst (getCachedResource 0 (js ''https://x/a'') ?s) = Some (replicate 10 65)"
    by (simp add: s getCachedResource_def getEntry_set_entry newEntry_def
        getExpirationTime_def DEFAULT_EXPIRATION_def STATIC_RESOURCE_EXPIRATION_def)
  from clearCache_empties_and_frames [of 0 "js ''https://x/a''" ?s] first_time_key_no_prefix
    flag before show ?thesis
    by simp
qed

section \<open>Removing a resource that has no backing entry\<close>

lemma first_match_is_record:
  assumes "distinct (map f xs)" "r \<in> set xs" "findIndex (\<lambda>x. f x = f r) xs = Some i"
  shows "xs ! i = r"
proof -
  from findIndex_Some [OF assms(3)] have "i < length xs" "f (xs ! i) = f r"
    by simp_all
  moreover from assms(1) have "inj_on f (set xs)"
    by (simp add: distinct_map)
  ultimately show ?thesis
    using assms(2) by (auto dest: inj_onD)
qed

lemma record_kept_by_splice:
  assumes "findIndex (\<lambda>x. f x = v) xs = Some i" "r \<in> set xs" "f r \<noteq> v"
  shows "r \<in> set (splice1 i xs)"
proof -
  from findIndex_Some [OF assms(1)] have i: "i < length xs" and fi: "f (xs ! i) = v"
    by simp_all
  have "set xs = set (take i xs @ xs ! i # drop (Suc i) xs)"
    by (simp only: id_take_nth_drop [OF i, symmetric])
  then have "set xs = insert (xs ! i) (set (take i xs) \<union> set (drop (Suc i) xs))"
    by (simp only: set_append list.set Un_insert_right)
  moreover from fi assms(3) have "r \<noteq> xs ! i"
    by auto
  ultimately have "r \<in> set (take i xs) \<union> set (drop (Suc i) xs)"
    using assms(2) by blast
  then show ?thesis
    by (simp only: splice1_def set_append)
qed

lemma record_kept_by_remove:
  assumes "r \<in> set (entries (getCacheIndex s))" "url_i r \<noteq> v"
  shows "r \<in> set (entries (getCacheIndex (removeCachedResource v s)))"
proof (cases "getEntry s v")
  case None
  with assms(1) show ?thesis
    by (simp add: removeCachedResource_def)
next
  case (Some entry)
  show ?thesis
  proof (cases "findIndex (\<lambda>x. url_i x = v) (entries (getCacheIndex s))")
    case None
    with Some assms(1) show ?thesis
      by (simp add: removeCachedResource_def getCacheIndex_removeFromCacheIndex)
  next
    case (Some i)
    from record_kept_by_splice [OF Some assms] \<open>getEntry s v = Some entry\<close> Some show ?thesis
      by (simp add: removeCachedResource_def getCacheIndex_removeFromCacheIndex)
  qed
qed

lemma record_kept_by_read:
  assumes "r \<in> set (entries (getCacheIndex s))" "url_i r \<noteq> v"
  shows "r \<in> set (entries (getCacheIndex (snd (getCachedResource now v s))))"
  using assms record_kept_by_remove [OF assms]
  by (simp add: getCachedResource_def split: option.splits)

lemma record_kept_by_write:
  assumes "r \<in> set (entries (getCacheIndex s))" "url_i r \<noteq> v"
    and "totalSize (getCacheIndex s) + int (length d) \<le> MAX_CACHE_SIZE"
  shows "r \<in> set (entries (getCacheIndex (cacheResource t t' v d ct s)))"
proof -
  let ?rs = "entries (getCacheIndex s)"
  let ?s2 = "updateCacheIndex t' v (length d)
      (setCacheData (getCacheKey v) (Entry (newEntry t v d ct)) s)"
  have idx: "totalSize (getCacheIndex ?s2) \<le> totalSize (getCacheIndex s) + int (length d)
      \<and> r \<in> set (entries (getCacheIndex ?s2))"
  proof (cases "findIndex (\<lambda>x. url_i x = v) ?rs")
    case None
    with assms(1) show ?thesis
      by (simp add: getCacheIndex_updateCacheIndex)
  next
    case (Some i)
    from record_kept_by_splice [OF Some assms(1,2)] Some show ?thesis
      by (simp add: getCacheIndex_updateCacheIndex)
  qed
  with assms(3) have "cacheResource t t' v d ct s = ?s2"
    by (intro cacheResource_within) simp
  with idx show ?thesis
    by simp
qed

text \<open>
  Claim C10, as amended. When the store holds no entry under the key of \<open>u\<close>,
  \<open>removeCachedResource u\<close> returns the store as it was: no slot changes, and the
  index keeps every record and its \<open>totalSize\<close>, also a record for \<open>u\<close> that has no
  backing entry. A read of \<open>u\<close> returns \<open>null\<close> and leaves the store as it was, too.
  Such a record also stays in the index through a removal or a read of any other URL,
  and through a write for another URL that fits under the limit on top of the current
  total, so that nothing is evicted. A later \<open>cacheResource\<close> for \<open>u\<close> itself ends it:
  that call drops the record, subtracts its size, and adds the record and the size of
  what it stores (stated here for a call that evicts nothing).
\<close>

theorem removeCachedResource_absent_unchanged:
  assumes "getCacheData s (getCacheKey u) = None"
  shows "removeCachedResource u s = s
       \<and> getCacheIndex (removeCachedResource u s) = getCacheIndex s
       \<and> getCachedResource now u s = (None, s)
       \<and> (distinct (map url_i (entries (getCacheIndex s)))
            \<and> r \<in> set (entries (getCacheIndex s)) \<and> url_i r = u
            \<and> totalSize (getCacheIndex s) - int (size_i r) + int (length d) \<le> MAX_CACHE_SIZE
          \<longrightarrow> getCacheIndex (cacheResource t t' u d ct s) =
                \<lparr>totalSize = totalSize (getCacheIndex s) - int (size_i r) + int (length d),
                 entries = filter (\<lambda>x. url_i x \<noteq> u) (entries (getCacheIndex s))
                             @ [\<lparr>url_i = u, size_i = length d, timestamp_i = t'\<rparr>]\<rparr>)
       \<and> (r \<in> set (entries (getCacheIndex s)) \<and> url_i r = u \<and> v \<noteq> u \<longrightarrow>
            r \<in> set (entries (getCacheIndex (removeCachedResource v s)))
          \<and> r \<in> set (entries (getCacheIndex (snd (getCachedResource now v s))))
          \<and> (totalSize (getCacheIndex s) + int (length e) \<le> MAX_CACHE_SIZE \<longrightarrow>
                r \<in> set (entries (getCacheIndex (cacheResource t t' v e ct s)))))"
proof (intro conjI impI)
  show "removeCachedResource u s = s"
    using assms by (simp add: removeCachedResource_def getEntry_None_if_absent)
  then show "getCacheIndex (removeCachedResource u s) = getCacheIndex s"
    by simp
  show "getCachedResource now u s = (None, s)"
    using assms by (simp add: getCachedResource_def getEntry_None_if_absent)
next
  let ?rs = "entries (getCacheIndex s)"
  let ?s1 = "setCacheData (getCacheKey u) (Entry (newEntry t u d ct)) s"
  assume a: "distinct (map url_i ?rs) \<and> r \<in> set ?rs \<and> url_i r = u
      \<and> totalSize (getCacheIndex s) - int (size_i r) + int (length d) \<le> MAX_CACHE_SIZE"
  then have d: "distinct (map url_i ?rs)" and r: "r \<in> set ?rs" and ur: "url_i r = u"
    and small: "totalSize (getCacheIndex s) - int (size_i r) + int (length d) \<le> MAX_CACHE_SIZE"
    by simp_all
  from r ur obtain i where i: "findIndex (\<lambda>x. url_i x = u) ?rs = Some i"
    by (cases "findIndex (\<lambda>x. url_i x = u) ?rs") (auto simp: findIndex_None_iff)
  with d r ur have ri: "?rs ! i = r"
    using first_match_is_record [of url_i ?rs r i] by simp
  have idx: "getCacheIndex (updateCacheIndex t' u (length d) ?s1) =
      \<lparr>totalSize = totalSize (getCacheIndex s) - int (size_i r) + int (length d),
       entries = filter (\<lambda>x. url_i x \<noteq> u) ?rs @ [\<lparr>url_i = u, size_i = length d, timestamp_i = t'\<rparr>]\<rparr>"
    using i ri splice1_first_match [OF d i] by (simp add: getCacheIndex_updateCacheIndex)
  have "cacheResource t t' u d ct s = updateCacheIndex t' u (length d) ?s1"
    by (rule cacheResource_within) (simp add: idx small)
  with idx show "getCacheIndex (cacheResource t t' u d ct s) =
      \<lparr>totalSize = totalSize (getCacheIndex s) - int (size_i r) + int (length d),
       entries = filter (\<lambda>x. url_i x \<noteq> u) ?rs @ [\<lparr>url_i = u, size_i = length d, timestamp_i = t'\<rparr>]\<rparr>"
    by simp
next
  assume "r \<in> set (entries (getCacheIndex s)) \<and> url_i r = u \<and> v \<noteq> u"
  then show "r \<in> set (entries (getCacheIndex (removeCachedResource v s)))"
    by (intro record_kept_by_remove) auto
next
  assume "r \<in> set (entries (getCacheIndex s)) \<and> url_i r = u \<and> v \<noteq> u"
  then show "r \<in> set (entries (getCacheIndex (snd (getCachedResource now v s))))"
    by (intro record_kept_by_read) auto
next
  assume "r \<in> set (entries (getCacheIndex s)) \<and> url_i r = u \<and> v \<noteq> u"
    and "totalSize (getCacheIndex s) + int (length e) \<le> MAX_CACHE_SIZE"
  then show "r \<in> set (entries (getCacheIndex (cacheResource t t' v e ct s)))"
    by (intro record_kept_by_write) auto
qed

theorem removeCachedResource_absent_unchanged_witness:
  "(let s3 = removeCachedResource (js ''https://x/Aa'')
       (cacheResource 0 0 (js ''https://x/BB'') (replicate 2 66) (js ''text/html'')
          (cacheResource 0 0 (js ''https://x/Aa'') (replicate 5 65) (js ''text/html'') Map.empty));
        r = \<lparr>url_i = js ''https://x/BB'', size_i = 2, timestamp_i = 0\<rparr>
    in getCacheData s3 (getCacheKey (js ''https://x/BB'')) = None
     \<and> getCacheIndex s3 = \<lparr>totalSize = 5, entries = [r]\<rparr>
     \<and> getCacheIndex (removeCachedResource (js ''https://x/BB'') s3) = \<lparr>totalSize = 5, entries = [r]\<rparr>
     \<and> getCachedResource 7 (js ''https://x/BB'') s3 = (None, s3)
     \<and> getCacheIndex (cacheResource 8 9 (js ''https://x/BB'') (replicate 4 66) (js ''text/html'') s3)
        = \<lparr>totalSize = 7,
           entries = [\<lparr>url_i = js ''https://x/BB'', size_i = 4, timestamp_i = 9\<rparr>]\<rparr>
     \<and> js ''https://x/Aa'' \<noteq> js ''https://x/BB''
     \<and> r \<in> set (entries (getCacheIndex (removeCachedResource (js ''https://x/Aa'') s3)))
     \<and> r \<in> set (entries (getCacheIndex (snd (getCachedResource 7 (js ''https://x/Aa'') s3))))
     \<and> r \<in> set (entries (getCacheIndex
           (cacheResource 8 9 (js ''https://x/Aa'') (replicate 3 65) (js ''text/html'') s3))))"
proof -
  let ?q = "js ''https://x/BB''"
  let ?r = "\<lparr>url_i = ?q, size_i = 2, timestamp_i = 0\<rparr>"
  let ?s3 = "removeCachedResource (js ''https://x/Aa'')
       (cacheResource 0 0 ?q (replicate 2 66) (js ''text/html'')
          (cacheResource 0 0 (js ''https://x/Aa'') (replicate 5 65) (js ''text/html'') Map.empty))"
  note absent = colliding_remove(2)
  note idx = colliding_remove(1)
  have hyp: "distinct (map url_i (entries (getCacheIndex ?s3)))
      \<and> ?r \<in> set (entries (getCacheIndex ?s3)) \<and> url_i ?r = ?q
      \<and> totalSize (getCacheIndex ?s3) - int (size_i ?r) + int (length (replicate 4 (66 :: jschar)))
          \<le> MAX_CACHE_SIZE"
    by (simp add: idx MAX_CACHE_SIZE_def)
  have hyp': "?r \<in> set (entries (getCacheIndex ?s3)) \<and> url_i ?r = ?q \<and> js ''https://x/Aa'' \<noteq> ?q"
    by (simp add: idx colliding_urls_differ)
  have fits: "totalSize (getCacheIndex ?s3) + int (length (replicate 3 (65 :: jschar))) \<le> MAX_CACHE_SIZE"
    by (simp add: idx MAX_CACHE_SIZE_def)
  note main = removeCachedResource_absent_unchanged [OF absent, of 7 ?r "replicate 4 66" 8 9
      "js ''text/html''" "js ''https://x/Aa''" "replicate 3 65"]
  from main hyp' fits have kept:
    "?r \<in> set (entries (getCacheIndex (removeCachedResource (js ''https://x/Aa'') ?s3)))"
    "?r \<in> set (entries (getCacheIndex (snd (getCachedResource 7 (js ''https://x/Aa'') ?s3))))"
    "?r \<in> set (entries (getCacheIndex
        (cacheResource 8 9 (js ''https://x/Aa'') (replicate 3 65) (js ''text/html'') ?s3)))"
    by blast+
  from main have same: "getCacheIndex (removeCachedResource ?q ?s3) = getCacheIndex ?s3"
    and read: "getCachedResource 7 ?q ?s3 = (None, ?s3)"
    by blast+
  from main hyp have "getCacheIndex (cacheResource 8 9 ?q (replicate 4 66) (js ''text/html'') ?s3) =
      \<lparr>totalSize = totalSize (getCacheIndex ?s3) - int (size_i ?r)
          + int (length (replicate 4 (66 :: jschar))),
       entries = filter (\<lambda>x. url_i x \<noteq> ?q) (entries (getCacheIndex ?s3))
                   @ [\<lparr>url_i = ?q, size_i = length (replicate 4 (66 :: jschar)), timestamp_i = 9\<rparr>]\<rparr>"
    by blast
  then have rewritten: "getCacheIndex (cacheResource 8 9 ?q (replicate 4 66) (js ''text/html'') ?s3)
      = \<lparr>totalSize = 7, entries = [\<lparr>url_i = ?q, size_i = 4, timestamp_i = 9\<rparr>]\<rparr>"
    by (simp add: idx)
  show ?thesis
    unfolding Let_def
    using absent idx same [unfolded idx] read rewritten colliding_urls_differ kept by blast
qed

text \<open>
  The claim as stated fails in its last clause. The store below, reached from an empty
  cache, holds a record of size 2 for \<open>https://x/BB\<close> with no backing entry, in a total of
  5. A later \<open>cacheResource\<close> for that URL, on four code units, evicts nothing and clears
  nothing, and leaves a total of 7 and the new record alone: the record of size 2 and its
  share of the total are gone.
\<close>

theorem orphan_record_dropped_by_write:
  "getCacheData
     (removeCachedResource (js ''https://x/Aa'')
        (cacheResource 0 0 (js ''https://x/BB'') (replicate 2 66) (js ''text/html'')
           (cacheResource 0 0 (js ''https://x/Aa'') (replicate 5 65) (js ''text/html'') Map.empty)))
     (getCacheKey (js ''https://x/BB'')) = None
   \<and> getCacheIndex
       (removeCachedResource (js ''https://x/Aa'')
          (cacheResource 0 0 (js ''https://x/BB'') (replicate 2 66) (js ''text/html'')
             (cacheResource 0 0 (js ''https://x/Aa'') (replicate 5 65) (js ''text/html'') Map.empty)))
     = \<lparr>totalSize = 5, entries = [\<lparr>url_i = js ''https://x/BB'', size_i = 2, timestamp_i = 0\<rparr>]\<rparr>
   \<and> getCacheIndex
       (cacheResource 1 1 (js ''https://x/BB'') (replicate 4 66) (js ''text/html'')
          (removeCachedResource (js ''https://x/Aa'')
             (cacheResource 0 0 (js ''https://x/BB'') (replicate 2 66) (js ''text/html'')
                (cacheResource 0 0 (js ''https://x/Aa'') (replicate 5 65) (js ''text/html'')
                   Map.empty))))
     = \<lparr>totalSize = 7, entries = [\<lparr>url_i = js ''https://x/BB'', size_i = 4, timestamp_i = 1\<rparr>]\<rparr>"
proof -
  let ?q = "js ''https://x/BB''"
  let ?s3 = "removeCachedResource (js ''https://x/Aa'')
       (cacheResource 0 0 ?q (replicate 2 66) (js ''text/html'')
          (cacheResource 0 0 (js ''https://x/Aa'') (replicate 5 65) (js ''text/html'') Map.empty))"
  let ?s3' = "setCacheData (getCacheKey ?q)
      (Entry (newEntry 1 ?q (replicate 4 66) (js ''text/html''))) ?s3"
  have idx': "getCacheIndex (updateCacheIndex 1 ?q 4 ?s3') =
      \<lparr>totalSize = 7, entries = [\<lparr>url_i = ?q, size_i = 4, timestamp_i = 1\<rparr>]\<rparr>"
    by (simp add: getCacheIndex_updateCacheIndex colliding_remove(1) splice1_def)
  have "cacheResource 1 1 ?q (replicate 4 66) (js ''text/html'') ?s3 = updateCacheIndex 1 ?q 4 ?s3'"
    by (subst cacheResource_within) (simp_all add: idx' MAX_CACHE_SIZE_def)
  with idx' colliding_remove(1,2) show ?thesis
    by simp
qed

end
